theory Spec2Isabelle
  imports Main "HOL-Library.Word"
begin

section \<open>The VoidTx batch payment contract\<close>

text \<open>
  A shallow embedding of the Solidity contract \<open>VoidTx\<close> (pragma \<open>^0.8.20\<close>).
  Solidity's \<open>uint256\<close> is a 256-bit word, an \<open>address\<close> a 160-bit word. Arithmetic
  on \<open>uint256\<close> is checked since Solidity 0.8: an overflowing \<open>+\<close> and an
  underflowing \<open>-\<close> revert with \<open>Panic(0x11)\<close>. A failed \<open>require\<close> reverts with
  \<open>Error(string)\<close>. A revert undoes every effect of the call (storage, value
  transfers, events).
\<close>

subsection \<open>Data\<close>

type_synonym uint256 = "256 word"
type_synonym address = "160 word"

text \<open>\<open>struct Payment { address payable recipient; uint256 amount; }\<close>\<close>

record Payment =
  recipient :: address
  amount :: uint256

text \<open>\<open>struct PaymentResult { bool success; address recipient; uint256 amount; }\<close>\<close>

record PaymentResult =
  success :: bool
  recipient :: address
  amount :: uint256

text \<open>The four events of the contract, with their arguments in declaration order.\<close>

datatype event =
    BatchPaymentInitiated address uint256 uint256 uint256
  | PaymentSuccess address address uint256 uint256
  | PaymentFailed address address uint256 uint256 string
  | BatchPaymentCompleted address uint256 uint256 uint256

text \<open>
  How a call ends when it does not return: \<open>Error\<close> is a failed \<open>require\<close> or a
  \<open>revert\<close> with its reason string, \<open>Panic\<close> a failed compiler-inserted check with
  its code, \<open>RevertEmpty\<close> the revert without data of a non-payable function that
  is sent value, and \<open>OutOfFunds\<close> a message call whose caller cannot pay the value
  it attaches (the contract's code does not run).
\<close>

datatype error = Error string | Panic nat | RevertEmpty | OutOfFunds

text \<open>The names the specification gives to the reverts of \<open>batchPay\<close>.\<close>

definition EmptyBatch :: error where
  "EmptyBatch = Error ''No payments provided''"

definition BatchTooLarge :: error where
  "BatchTooLarge = Error ''Too many recipients''"

definition InvalidRecipient :: error where
  "InvalidRecipient = Error ''Invalid recipient address''"

definition AmountTooSmall :: error where
  "AmountTooSmall = Error ''Amount too small''"

definition InsufficientFunds :: error where
  "InsufficientFunds = Error ''Insufficient funds sent''"

definition RefundFailed :: error where
  "RefundFailed = Error ''Refund failed''"

definition ExcessRefundFailed :: error where
  "ExcessRefundFailed = Error ''Excess refund failed''"

definition Overflow :: error where
  "Overflow = Panic 17"

text \<open>
  The state a call can change: the two storage variables of the contract, the ether
  balance of every account, and the log of emitted events. Balances are natural
  numbers: all the ether there is stays far below \<open>2 ^ 256\<close> wei, so a balance never
  wraps.
\<close>

record state =
  totalPaymentsProcessed :: uint256
  totalVolumeProcessed :: uint256
  balance :: "address \<Rightarrow> nat"
  events :: "event list"

text \<open>
  The context of one message call: \<open>msg.sender\<close>, \<open>msg.value\<close>, \<open>address(this)\<close>
  and \<open>block.timestamp\<close>.
\<close>

record message =
  msg_sender :: address
  msg_value :: uint256
  this_address :: address
  block_timestamp :: uint256

text \<open>\<open>0.0001 ether\<close> is \<open>10 ^ 14\<close> wei.\<close>

definition MIN_AMOUNT :: uint256 where
  "MIN_AMOUNT = 100000000000000"

definition MAX_RECIPIENTS :: uint256 where
  "MAX_RECIPIENTS = 100"

subsection \<open>Checked arithmetic\<close>

definition checked_add :: "uint256 \<Rightarrow> uint256 \<Rightarrow> error + uint256" where
  "checked_add a b = (if unat a + unat b < 2 ^ 256 then Inr (a + b) else Inl Overflow)"

definition checked_sub :: "uint256 \<Rightarrow> uint256 \<Rightarrow> error + uint256" where
  "checked_sub a b = (if b \<le> a then Inr (a - b) else Inl Overflow)"

subsection \<open>The transfer primitive\<close>

text \<open>
  \<open>batchPay\<close> makes three kinds of external call, each
  \<open>addr.call{value: v}("")\<close>: one per payment in the loop, the refund of the failed
  amount, and the refund of the excess. The code of the callee is not part of the
  contract, so what it answers is a parameter: for each call site (and loop index)
  whether the callee accepts the value, and the revert reason carried by the returned
  data when there is one. In this first model a callee only accepts or refuses: it
  neither calls the contract again nor uses up the gas. The second model, further
  down, lifts both restrictions, and \<open>contract_inert\<close> shows that the two models
  agree on callees that only accept or refuse.
\<close>

datatype callsite = PaymentCall nat | RefundCall | ExcessRefundCall

type_synonym environment = "callsite \<Rightarrow> bool \<times> string option"

text \<open>
  The call fails without running the callee when the contract's balance is below
  the value; when the callee fails, the value stays with the contract; when it accepts, the
  value moves.
\<close>

definition move :: "address \<Rightarrow> address \<Rightarrow> nat \<Rightarrow> (address \<Rightarrow> nat) \<Rightarrow> (address \<Rightarrow> nat)" where
  "move src dst v b = (let b1 = b(src := b src - v) in b1(dst := b1 dst + v))"

definition call_value ::
  "environment \<Rightarrow> callsite \<Rightarrow> address \<Rightarrow> address \<Rightarrow> uint256 \<Rightarrow> state
    \<Rightarrow> (bool \<times> string option) \<times> state" where
  "call_value env site src dst v s =
     (if balance s src < unat v then ((False, None), s)
      else if fst (env site)
        then (env site, s\<lparr>balance := move src dst (unat v) (balance s)\<rparr>)
        else (env site, s))"

definition emit :: "event \<Rightarrow> state \<Rightarrow> state" where
  "emit e s = s\<lparr>events := events s @ [e]\<rparr>"

subsection \<open>batchPay\<close>

text \<open>The modifier \<open>validPayments\<close>.\<close>

definition validPayments :: "Payment list \<Rightarrow> error + unit" where
  "validPayments payments =
     (if \<not> (length payments > 0) then Inl (Error ''No payments provided'')
      else if \<not> (length payments \<le> unat MAX_RECIPIENTS) then Inl (Error ''Too many recipients'')
      else Inr ())"

text \<open>
  The first loop: it checks each payment and adds its amount to \<open>totalRequired\<close>.
  The index \<open>i\<close> stays below the length of the array, so \<open>i++\<close> cannot overflow and
  \<open>payments[i]\<close> is in range.
\<close>

function validate_loop :: "Payment list \<Rightarrow> nat \<Rightarrow> uint256 \<Rightarrow> error + uint256" where
  "validate_loop payments i totalRequired =
     (if i < length payments then
        if \<not> (Payment.recipient (payments ! i) \<noteq> 0) then Inl (Error ''Invalid recipient address'')
        else if \<not> (Payment.amount (payments ! i) \<ge> MIN_AMOUNT) then Inl (Error ''Amount too small'')
        else (case checked_add totalRequired (Payment.amount (payments ! i)) of
                Inl e \<Rightarrow> Inl e
              | Inr t \<Rightarrow> validate_loop payments (i + 1) t)
      else Inr totalRequired)"
  by pat_completeness auto
termination
  by (relation "measure (\<lambda>(payments, i, t). length payments - i)") auto

text \<open>The local variables of the second loop.\<close>

record frame =
  results :: "PaymentResult list"
  successCount :: uint256
  failureCount :: uint256
  totalProcessed :: uint256

text \<open>
  The locals as the second loop finds them: \<open>new PaymentResult[](paymentsLength)\<close> is
  an array of zero-initialised structs, and the three counters are zero.
\<close>

definition frame0 :: "nat \<Rightarrow> frame" where
  "frame0 paymentsLength =
     \<lparr>results = replicate paymentsLength \<lparr>success = False, recipient = 0, amount = 0\<rparr>,
      successCount = 0, failureCount = 0, totalProcessed = 0\<rparr>"

text \<open>
  The second loop: it attempts each transfer, stores the result at index \<open>i\<close>, counts
  it and emits its event. The increments are checked additions. The index is below
  the length of \<open>payments\<close>, which is the length of \<open>results\<close>, so both accesses are in
  range.
\<close>

function pay_loop ::
  "environment \<Rightarrow> message \<Rightarrow> Payment list \<Rightarrow> nat \<Rightarrow> frame \<Rightarrow> state \<Rightarrow> (error + frame) \<times> state" where
  "pay_loop env ctx payments i f s =
     (if i < length payments then
        let payment = payments ! i;
            (ret, s1) = call_value env (PaymentCall i) (this_address ctx)
                          (Payment.recipient payment) (Payment.amount payment) s;
            success = fst ret;
            f1 = f\<lparr>results := (results f)[i := \<lparr>success = success,
                     recipient = Payment.recipient payment, amount = Payment.amount payment\<rparr>]\<rparr>
        in if success then
             (case checked_add (successCount f1) 1 of
                Inl e \<Rightarrow> (Inl e, s1)
              | Inr sc \<Rightarrow>
             (case checked_add (totalProcessed f1) (Payment.amount payment) of
                Inl e \<Rightarrow> (Inl e, s1)
              | Inr tp \<Rightarrow>
                  pay_loop env ctx payments (i + 1)
                    (f1\<lparr>successCount := sc, totalProcessed := tp\<rparr>)
                    (emit (PaymentSuccess (msg_sender ctx) (Payment.recipient payment)
                             (Payment.amount payment) (of_nat i)) s1)))
           else
             (case checked_add (failureCount f1) 1 of
                Inl e \<Rightarrow> (Inl e, s1)
              | Inr fc \<Rightarrow>
                  pay_loop env ctx payments (i + 1)
                    (f1\<lparr>failureCount := fc\<rparr>)
                    (emit (PaymentFailed (msg_sender ctx) (Payment.recipient payment)
                             (Payment.amount payment) (of_nat i) ''Transfer failed'') s1))
      else (Inr f, s))"
  by pat_completeness auto
termination
  by (relation "measure (\<lambda>(env, ctx, payments, i, f, s). length payments - i)") auto

text \<open>
  The reconciliation at the end of \<open>batchPay\<close>: the refund of what the failed
  payments did not deliver, then the refund of the value sent beyond \<open>totalRequired\<close>.
  The parameters \<open>required\<close> and \<open>processed\<close> are the locals \<open>totalRequired\<close> and
  \<open>totalProcessed\<close> of the source.
\<close>

definition reconcile ::
  "environment \<Rightarrow> message \<Rightarrow> uint256 \<Rightarrow> uint256 \<Rightarrow> state \<Rightarrow> (error + unit) \<times> state" where
  "reconcile env ctx required processed s =
     (case checked_sub required processed of
        Inl e \<Rightarrow> (Inl e, s)
      | Inr failedAmount \<Rightarrow>
          let (refundSuccess, s1) =
                (if failedAmount > 0
                 then (let (ret, s') = call_value env RefundCall (this_address ctx) (msg_sender ctx)
                                         failedAmount s
                       in (fst ret, s'))
                 else (True, s))
          in if \<not> refundSuccess then (Inl (Error ''Refund failed''), s1)
             else (case checked_sub (msg_value ctx) required of
                     Inl e \<Rightarrow> (Inl e, s1)
                   | Inr excess \<Rightarrow>
                       let (excessRefund, s2) =
                             (if excess > 0
                              then (let (ret, s') = call_value env ExcessRefundCall (this_address ctx)
                                                      (msg_sender ctx) excess s1
                                    in (fst ret, s'))
                              else (True, s1))
                       in if \<not> excessRefund then (Inl (Error ''Excess refund failed''), s2)
                          else (Inr (), s2)))"

text \<open>
  The body of \<open>batchPay\<close>, run on the state in which \<open>msg.value\<close> is already with the
  contract. It returns the state as it is when the body stops; whether that state
  is kept is decided by \<open>invoke\<close> below.
\<close>

definition batchPay ::
  "environment \<Rightarrow> message \<Rightarrow> Payment list \<Rightarrow> state \<Rightarrow> (error + PaymentResult list) \<times> state" where
  "batchPay env ctx payments s =
     (case validPayments payments of
        Inl e \<Rightarrow> (Inl e, s)
      | Inr _ \<Rightarrow>
     (case validate_loop payments 0 0 of
        Inl e \<Rightarrow> (Inl e, s)
      | Inr totalRequired \<Rightarrow>
          if \<not> (msg_value ctx \<ge> totalRequired) then (Inl (Error ''Insufficient funds sent''), s)
          else
            let paymentsLength = length payments;
                s1 = emit (BatchPaymentInitiated (msg_sender ctx) (of_nat paymentsLength)
                             totalRequired (block_timestamp ctx)) s;
                f0 = frame0 paymentsLength
            in (case pay_loop env ctx payments 0 f0 s1 of
                  (Inl e, s2) \<Rightarrow> (Inl e, s2)
                | (Inr f, s2) \<Rightarrow>
               (case checked_add (totalPaymentsProcessed s2) (successCount f) of
                  Inl e \<Rightarrow> (Inl e, s2)
                | Inr n \<Rightarrow>
                    let s3 = s2\<lparr>totalPaymentsProcessed := n\<rparr>
                    in (case checked_add (totalVolumeProcessed s3) (totalProcessed f) of
                          Inl e \<Rightarrow> (Inl e, s3)
                        | Inr v \<Rightarrow>
                            let s4 = s3\<lparr>totalVolumeProcessed := v\<rparr>;
                                s5 = emit (BatchPaymentCompleted (msg_sender ctx) (successCount f)
                                             (failureCount f) (totalProcessed f)) s4
                            in (case reconcile env ctx totalRequired (totalProcessed f) s5 of
                                  (Inl e, s6) \<Rightarrow> (Inl e, s6)
                                | (Inr _, s6) \<Rightarrow> (Inr (results f), s6)))))))"

subsection \<open>The read-only functions\<close>

text \<open>\<open>estimateBatchCost\<close>: a \<open>pure\<close> function, so it neither reads nor writes the state.\<close>

function estimate_loop :: "Payment list \<Rightarrow> nat \<Rightarrow> uint256 \<Rightarrow> error + uint256" where
  "estimate_loop payments i total0 =
     (if i < length payments then
        (case checked_add total0 (Payment.amount (payments ! i)) of
           Inl e \<Rightarrow> Inl e
         | Inr t \<Rightarrow> estimate_loop payments (i + 1) t)
      else Inr total0)"
  by pat_completeness auto
termination
  by (relation "measure (\<lambda>(payments, i, t). length payments - i)") auto

definition estimateBatchCost :: "Payment list \<Rightarrow> error + uint256" where
  "estimateBatchCost payments = estimate_loop payments 0 0"

definition getStats :: "state \<Rightarrow> uint256 \<times> uint256" where
  "getStats s = (totalPaymentsProcessed s, totalVolumeProcessed s)"

subsection \<open>The entry points of the contract\<close>

text \<open>
  What a message call to the contract can reach: the three external functions, the
  getters that \<open>public\<close> gives the two state variables and the two constants, \<open>receive\<close>
  (empty calldata) and \<open>fallback\<close> (any other calldata).
\<close>

datatype entry =
    BatchPay "Payment list"
  | EstimateBatchCost "Payment list"
  | GetStats
  | Get_totalPaymentsProcessed
  | Get_totalVolumeProcessed
  | Get_MIN_AMOUNT
  | Get_MAX_RECIPIENTS
  | Receive
  | Fallback

datatype returned =
    Results "PaymentResult list"
  | Uint uint256
  | Stats uint256 uint256

text \<open>A function that is not \<open>payable\<close> reverts when it is sent value.\<close>

definition nonpayable :: "message \<Rightarrow> state \<Rightarrow> error + returned \<Rightarrow> (error + returned) \<times> state" where
  "nonpayable ctx s r = (if msg_value ctx \<noteq> 0 then (Inl RevertEmpty, s) else (r, s))"

definition dispatch ::
  "environment \<Rightarrow> message \<Rightarrow> entry \<Rightarrow> state \<Rightarrow> (error + returned) \<times> state" where
  "dispatch env ctx e s =
     (case e of
        BatchPay payments \<Rightarrow>
          (case batchPay env ctx payments s of
             (Inl err, s') \<Rightarrow> (Inl err, s')
           | (Inr rs, s') \<Rightarrow> (Inr (Results rs), s'))
      | EstimateBatchCost payments \<Rightarrow>
          nonpayable ctx s (case estimateBatchCost payments of
                              Inl err \<Rightarrow> Inl err | Inr t \<Rightarrow> Inr (Uint t))
      | GetStats \<Rightarrow> nonpayable ctx s (Inr (Stats (fst (getStats s)) (snd (getStats s))))
      | Get_totalPaymentsProcessed \<Rightarrow> nonpayable ctx s (Inr (Uint (totalPaymentsProcessed s)))
      | Get_totalVolumeProcessed \<Rightarrow> nonpayable ctx s (Inr (Uint (totalVolumeProcessed s)))
      | Get_MIN_AMOUNT \<Rightarrow> nonpayable ctx s (Inr (Uint MIN_AMOUNT))
      | Get_MAX_RECIPIENTS \<Rightarrow> nonpayable ctx s (Inr (Uint MAX_RECIPIENTS))
      | Receive \<Rightarrow> (Inl (Error ''Use batchPay function''), s)
      | Fallback \<Rightarrow> (Inl (Error ''Function does not exist''), s))"

text \<open>
  One message call: the value moves from the caller to the contract, the entry
  point runs, and when it reverts the state is the one before the call.
\<close>

definition credited :: "message \<Rightarrow> state \<Rightarrow> state" where
  "credited ctx s =
     s\<lparr>balance := move (msg_sender ctx) (this_address ctx) (unat (msg_value ctx)) (balance s)\<rparr>"

definition invoke ::
  "environment \<Rightarrow> message \<Rightarrow> entry \<Rightarrow> state \<Rightarrow> (error + returned) \<times> state" where
  "invoke env ctx e s =
     (if balance s (msg_sender ctx) < unat (msg_value ctx) then (Inl OutOfFunds, s)
      else (case dispatch env ctx e (credited ctx s) of
              (Inl err, s') \<Rightarrow> (Inl err, s)
            | (Inr r, s') \<Rightarrow> (Inr r, s')))"

section \<open>Callees that re-enter the contract or use up the gas\<close>

text \<open>
  \<open>batchPay\<close> calls its recipients and its sender with \<open>.call{value: v}("")\<close>: the
  callee gets all the gas that is left and the contract has no re-entrancy guard. So
  the code of a callee may, before it answers, call the contract again (any entry
  point, from any account, with any value), and it may use up the gas. This second
  model runs the same code against such callees. A callee is a list of actions
  followed by an answer. An action moves ether out of an account other than the
  contract, or calls an entry point of the contract. The answer is \<open>Accept\<close>, or
  \<open>Refuse\<close> with the revert reason if there is one (everything the callee did is then
  undone), or \<open>Exhaust\<close>: the callee failed and so little gas is left that the calling
  function cannot go on, which ends the whole call. (A callee that fails with all the
  gas it was given, where the calling function has kept enough to go on, is a \<open>Refuse\<close>.)
\<close>

datatype stop = Revert error | OutOfGas | TooDeep

datatype answer = Accept | Refuse "string option" | Exhaust

datatype action = is_Move: Move address address nat | Reenter address uint256 entry

text \<open>
  The callees are given by a \<open>world\<close>: for every call site of every call to the contract
  the actions and the answer of the callee. A call to the contract is named by its
  \<open>path\<close>: empty for the outermost call; the call made by action number \<open>j\<close> of the
  callee at call site \<open>site\<close> of the call \<open>p\<close> is \<open>p @ [(site, j)]\<close>.
\<close>

type_synonym path = "(callsite \<times> nat) list"

type_synonym world = "path \<Rightarrow> callsite \<Rightarrow> action list \<times> answer"

text \<open>What a call to the contract does, as the callees see it.\<close>

type_synonym nested = "path \<Rightarrow> message \<Rightarrow> entry \<Rightarrow> state \<Rightarrow> (stop + returned) \<times> state"

text \<open>
  The actions of the callee at call site \<open>site\<close> of the call \<open>p\<close>, from action number
  \<open>j\<close> on. The contract has no code that calls itself or that sends ether other than
  in the calls of \<open>batchPay\<close>, so it is never the sender of a nested call nor the
  source of a move.
\<close>

fun run_actions ::
  "nested \<Rightarrow> path \<Rightarrow> callsite \<Rightarrow> message \<Rightarrow> nat \<Rightarrow> action list \<Rightarrow> state \<Rightarrow> state" where
  "run_actions nested p site ctx j [] s = s"
| "run_actions nested p site ctx j (Move src dst v # acts) s =
     run_actions nested p site ctx (Suc j) acts
       (if src \<noteq> this_address ctx \<and> v \<le> balance s src
        then s\<lparr>balance := move src dst v (balance s)\<rparr> else s)"
| "run_actions nested p site ctx j (Reenter a v e # acts) s =
     run_actions nested p site ctx (Suc j) acts
       (if a \<noteq> this_address ctx
        then snd (nested (p @ [(site, j)]) (ctx\<lparr>msg_sender := a, msg_value := v\<rparr>) e s)
        else s)"

text \<open>
  \<open>dst.call{value: v}("")\<close> made by the contract: the value moves, the callee acts and
  answers.
\<close>

definition call_re ::
  "nested \<Rightarrow> world \<Rightarrow> path \<Rightarrow> callsite \<Rightarrow> message \<Rightarrow> address \<Rightarrow> uint256 \<Rightarrow> state
    \<Rightarrow> (stop + bool \<times> string option) \<times> state" where
  "call_re nested w p site ctx dst v s =
     (if balance s (this_address ctx) < unat v then (Inr (False, None), s)
      else
        let s1 = s\<lparr>balance := move (this_address ctx) dst (unat v) (balance s)\<rparr>;
            s2 = run_actions nested p site ctx 0 (fst (w p site)) s1
        in (case snd (w p site) of
              Accept \<Rightarrow> (Inr (True, None), s2)
            | Refuse reason \<Rightarrow> (Inr (False, reason), s)
            | Exhaust \<Rightarrow> (Inl OutOfGas, s)))"

text \<open>The second loop of \<open>batchPay\<close>, as \<open>pay_loop\<close> above, with these calls.\<close>

function pay_loop_re ::
  "nested \<Rightarrow> world \<Rightarrow> path \<Rightarrow> message \<Rightarrow> Payment list \<Rightarrow> nat \<Rightarrow> frame \<Rightarrow> state
    \<Rightarrow> (stop + frame) \<times> state" where
  "pay_loop_re nested w p ctx payments i f s =
     (if i < length payments then
        let payment = payments ! i
        in (case call_re nested w p (PaymentCall i) ctx
                   (Payment.recipient payment) (Payment.amount payment) s of
              (Inl st, s1) \<Rightarrow> (Inl st, s1)
            | (Inr ret, s1) \<Rightarrow>
                let success = fst ret;
                    f1 = f\<lparr>results := (results f)[i := \<lparr>success = success,
                           recipient = Payment.recipient payment, amount = Payment.amount payment\<rparr>]\<rparr>
                in if success then
                     (case checked_add (successCount f1) 1 of
                        Inl e \<Rightarrow> (Inl (Revert e), s1)
                      | Inr sc \<Rightarrow>
                     (case checked_add (totalProcessed f1) (Payment.amount payment) of
                        Inl e \<Rightarrow> (Inl (Revert e), s1)
                      | Inr tp \<Rightarrow>
                          pay_loop_re nested w p ctx payments (i + 1)
                            (f1\<lparr>successCount := sc, totalProcessed := tp\<rparr>)
                            (emit (PaymentSuccess (msg_sender ctx) (Payment.recipient payment)
                                     (Payment.amount payment) (of_nat i)) s1)))
                   else
                     (case checked_add (failureCount f1) 1 of
                        Inl e \<Rightarrow> (Inl (Revert e), s1)
                      | Inr fc \<Rightarrow>
                          pay_loop_re nested w p ctx payments (i + 1)
                            (f1\<lparr>failureCount := fc\<rparr>)
                            (emit (PaymentFailed (msg_sender ctx) (Payment.recipient payment)
                                     (Payment.amount payment) (of_nat i) ''Transfer failed'') s1)))
      else (Inr f, s))"
  by pat_completeness auto
termination
  by (relation "measure (\<lambda>(nested, w, p, ctx, payments, i, f, s). length payments - i)") auto

text \<open>
  One of the two refunds: \<open>if (v > 0) { (bool ok, ) = payable(msg.sender).call{value: v}(""); \<dots> }\<close>.
  The sender is a callee like any other.
\<close>

definition refund_re ::
  "nested \<Rightarrow> world \<Rightarrow> path \<Rightarrow> callsite \<Rightarrow> message \<Rightarrow> uint256 \<Rightarrow> state
    \<Rightarrow> (stop + bool) \<times> state" where
  "refund_re nested w p site ctx v s =
     (if v > 0
      then (case call_re nested w p site ctx (msg_sender ctx) v s of
              (Inl st, s') \<Rightarrow> (Inl st, s')
            | (Inr ret, s') \<Rightarrow> (Inr (fst ret), s'))
      else (Inr True, s))"

definition reconcile_re ::
  "nested \<Rightarrow> world \<Rightarrow> path \<Rightarrow> message \<Rightarrow> uint256 \<Rightarrow> uint256 \<Rightarrow> state \<Rightarrow> (stop + unit) \<times> state" where
  "reconcile_re nested w p ctx required processed s =
     (case checked_sub required processed of
        Inl e \<Rightarrow> (Inl (Revert e), s)
      | Inr failedAmount \<Rightarrow>
          (case refund_re nested w p RefundCall ctx failedAmount s of
             (Inl st, s1) \<Rightarrow> (Inl st, s1)
           | (Inr refundSuccess, s1) \<Rightarrow>
               if \<not> refundSuccess then (Inl (Revert (Error ''Refund failed'')), s1)
               else (case checked_sub (msg_value ctx) required of
                       Inl e \<Rightarrow> (Inl (Revert e), s1)
                     | Inr excess \<Rightarrow>
                         (case refund_re nested w p ExcessRefundCall ctx excess s1 of
                            (Inl st, s2) \<Rightarrow> (Inl st, s2)
                          | (Inr excessRefund, s2) \<Rightarrow>
                              if \<not> excessRefund
                              then (Inl (Revert (Error ''Excess refund failed'')), s2)
                              else (Inr (), s2)))))"

definition batchPay_re ::
  "nested \<Rightarrow> world \<Rightarrow> path \<Rightarrow> message \<Rightarrow> Payment list \<Rightarrow> state
    \<Rightarrow> (stop + PaymentResult list) \<times> state" where
  "batchPay_re nested w p ctx payments s =
     (case validPayments payments of
        Inl e \<Rightarrow> (Inl (Revert e), s)
      | Inr _ \<Rightarrow>
     (case validate_loop payments 0 0 of
        Inl e \<Rightarrow> (Inl (Revert e), s)
      | Inr totalRequired \<Rightarrow>
          if \<not> (msg_value ctx \<ge> totalRequired)
          then (Inl (Revert (Error ''Insufficient funds sent'')), s)
          else
            let paymentsLength = length payments;
                s1 = emit (BatchPaymentInitiated (msg_sender ctx) (of_nat paymentsLength)
                             totalRequired (block_timestamp ctx)) s;
                f0 = frame0 paymentsLength
            in (case pay_loop_re nested w p ctx payments 0 f0 s1 of
                  (Inl st, s2) \<Rightarrow> (Inl st, s2)
                | (Inr f, s2) \<Rightarrow>
               (case checked_add (totalPaymentsProcessed s2) (successCount f) of
                  Inl e \<Rightarrow> (Inl (Revert e), s2)
                | Inr n \<Rightarrow>
                    let s3 = s2\<lparr>totalPaymentsProcessed := n\<rparr>
                    in (case checked_add (totalVolumeProcessed s3) (totalProcessed f) of
                          Inl e \<Rightarrow> (Inl (Revert e), s3)
                        | Inr v \<Rightarrow>
                            let s4 = s3\<lparr>totalVolumeProcessed := v\<rparr>;
                                s5 = emit (BatchPaymentCompleted (msg_sender ctx) (successCount f)
                                             (failureCount f) (totalProcessed f)) s4
                            in (case reconcile_re nested w p ctx totalRequired (totalProcessed f) s5 of
                                  (Inl st, s6) \<Rightarrow> (Inl st, s6)
                                | (Inr _, s6) \<Rightarrow> (Inr (results f), s6)))))))"

text \<open>The entry points other than \<open>batchPay\<close> make no external call.\<close>

definition reverting :: "(error + 'a) \<times> state \<Rightarrow> (stop + 'a) \<times> state" where
  "reverting r = (case r of (Inl err, s) \<Rightarrow> (Inl (Revert err), s) | (Inr x, s) \<Rightarrow> (Inr x, s))"

definition dispatch_re ::
  "nested \<Rightarrow> world \<Rightarrow> path \<Rightarrow> message \<Rightarrow> entry \<Rightarrow> state \<Rightarrow> (stop + returned) \<times> state" where
  "dispatch_re nested w p ctx e s =
     (case e of
        BatchPay payments \<Rightarrow>
          (case batchPay_re nested w p ctx payments s of
             (Inl st, s') \<Rightarrow> (Inl st, s')
           | (Inr rs, s') \<Rightarrow> (Inr (Results rs), s'))
      | EstimateBatchCost payments \<Rightarrow>
          reverting (nonpayable ctx s (case estimateBatchCost payments of
                                         Inl err \<Rightarrow> Inl err | Inr t \<Rightarrow> Inr (Uint t)))
      | GetStats \<Rightarrow>
          reverting (nonpayable ctx s (Inr (Stats (fst (getStats s)) (snd (getStats s)))))
      | Get_totalPaymentsProcessed \<Rightarrow>
          reverting (nonpayable ctx s (Inr (Uint (totalPaymentsProcessed s))))
      | Get_totalVolumeProcessed \<Rightarrow>
          reverting (nonpayable ctx s (Inr (Uint (totalVolumeProcessed s))))
      | Get_MIN_AMOUNT \<Rightarrow> reverting (nonpayable ctx s (Inr (Uint MIN_AMOUNT)))
      | Get_MAX_RECIPIENTS \<Rightarrow> reverting (nonpayable ctx s (Inr (Uint MAX_RECIPIENTS)))
      | Receive \<Rightarrow> (Inl (Revert (Error ''Use batchPay function'')), s)
      | Fallback \<Rightarrow> (Inl (Revert (Error ''Function does not exist'')), s))"

definition invoke_re ::
  "nested \<Rightarrow> world \<Rightarrow> path \<Rightarrow> message \<Rightarrow> entry \<Rightarrow> state \<Rightarrow> (stop + returned) \<times> state" where
  "invoke_re nested w p ctx e s =
     (if balance s (msg_sender ctx) < unat (msg_value ctx) then (Inl (Revert OutOfFunds), s)
      else (case dispatch_re nested w p ctx e (credited ctx s) of
              (Inl st, s') \<Rightarrow> (Inl st, s)
            | (Inr r, s') \<Rightarrow> (Inr r, s')))"

text \<open>
  A call to the contract with room for \<open>d\<close> more frames on the call stack (the EVM
  allows 1024): with no room the call fails; otherwise the calls that its callees make
  have one frame less.
\<close>

primrec contract :: "nat \<Rightarrow> world \<Rightarrow> nested" where
  "contract 0 w = (\<lambda>p ctx e s. (Inl TooDeep, s))"
| "contract (Suc d) w = invoke_re (contract d w) w"

section \<open>Notions used to state the properties\<close>

subsection \<open>Well-formed payments and exact sums\<close>

text \<open>
  A payment passes the two checks of the first loop when its recipient is not the
  zero address and its amount is at least \<open>MIN_AMOUNT\<close>. \<open>sum_amounts\<close> is the sum of
  the amounts as a natural number, so it does not wrap.
\<close>

definition well_formed :: "Payment \<Rightarrow> bool" where
  "well_formed p \<longleftrightarrow> Payment.recipient p \<noteq> 0 \<and> MIN_AMOUNT \<le> Payment.amount p"

definition sum_amounts :: "Payment list \<Rightarrow> nat" where
  "sum_amounts ps = sum_list (map (\<lambda>p. unat (Payment.amount p)) ps)"

text \<open>
  The two summing loops as recursions over the list of the payments still to visit;
  \<open>validate_loop_list\<close> and \<open>estimate_loop_list\<close> below show that the indexed loops
  compute them.
\<close>

fun validate_list :: "Payment list \<Rightarrow> uint256 \<Rightarrow> error + uint256" where
  "validate_list [] t = Inr t"
| "validate_list (p # ps) t =
     (if Payment.recipient p = 0 then Inl InvalidRecipient
      else if Payment.amount p < MIN_AMOUNT then Inl AmountTooSmall
      else (case checked_add t (Payment.amount p) of
              Inl e \<Rightarrow> Inl e
            | Inr t' \<Rightarrow> validate_list ps t'))"

fun estimate_list :: "Payment list \<Rightarrow> uint256 \<Rightarrow> error + uint256" where
  "estimate_list [] t = Inr t"
| "estimate_list (p # ps) t =
     (case checked_add t (Payment.amount p) of
        Inl e \<Rightarrow> Inl e
      | Inr t' \<Rightarrow> estimate_list ps t')"

text \<open>
  The error with which the validation of \<open>batchPay\<close> stops, if any: the checks in the
  order in which the modifier and the first loop make them. \<open>takeWhile well_formed\<close> is
  the run of payments before the first one that fails a check, and
  \<open>hd (dropWhile well_formed ps)\<close> is that payment.
\<close>

definition precheck :: "Payment list \<Rightarrow> uint256 \<Rightarrow> error option" where
  "precheck ps v =
     (if length ps = 0 then Some EmptyBatch
      else if 100 < length ps then Some BatchTooLarge
      else if \<not> sum_amounts (takeWhile well_formed ps) < 2 ^ 256 then Some Overflow
      else if dropWhile well_formed ps \<noteq> [] then
        (if Payment.recipient (hd (dropWhile well_formed ps)) = 0 then Some InvalidRecipient
         else Some AmountTooSmall)
      else if unat v < sum_amounts ps then Some InsufficientFunds
      else None)"

subsection \<open>What the second loop does, payment by payment\<close>

text \<open>
  \<open>ok env i\<close>: the callee of the \<open>i\<close>-th transfer accepts it. \<open>result_at\<close> and
  \<open>event_at\<close> are the result stored and the event emitted for payment \<open>i\<close>;
  \<open>paid\<close> is the value that left the contract over the indices \<open>js\<close>, \<open>paid_to\<close>
  the part of it that went to the address \<open>a\<close>.
\<close>

definition ok :: "environment \<Rightarrow> nat \<Rightarrow> bool" where
  "ok env i = fst (env (PaymentCall i))"

definition result_at :: "environment \<Rightarrow> Payment list \<Rightarrow> nat \<Rightarrow> PaymentResult" where
  "result_at env ps i =
     \<lparr>success = ok env i, recipient = Payment.recipient (ps ! i), amount = Payment.amount (ps ! i)\<rparr>"

definition event_at :: "environment \<Rightarrow> message \<Rightarrow> Payment list \<Rightarrow> nat \<Rightarrow> event" where
  "event_at env ctx ps i =
     (if ok env i
      then PaymentSuccess (msg_sender ctx) (Payment.recipient (ps ! i)) (Payment.amount (ps ! i)) (of_nat i)
      else PaymentFailed (msg_sender ctx) (Payment.recipient (ps ! i)) (Payment.amount (ps ! i)) (of_nat i)
             ''Transfer failed'')"

definition paid :: "environment \<Rightarrow> Payment list \<Rightarrow> nat list \<Rightarrow> nat" where
  "paid env ps js = (\<Sum>j\<leftarrow>filter (ok env) js. unat (Payment.amount (ps ! j)))"

definition paid_to :: "environment \<Rightarrow> Payment list \<Rightarrow> address \<Rightarrow> nat list \<Rightarrow> nat" where
  "paid_to env ps a js =
     (\<Sum>j\<leftarrow>filter (\<lambda>j. ok env j \<and> Payment.recipient (ps ! j) = a) js. unat (Payment.amount (ps ! j)))"

definition n_ok :: "environment \<Rightarrow> Payment list \<Rightarrow> nat" where
  "n_ok env ps = length (filter (ok env) [0..<length ps])"

definition n_failed :: "environment \<Rightarrow> Payment list \<Rightarrow> nat" where
  "n_failed env ps = length (filter (\<lambda>j. \<not> ok env j) [0..<length ps])"

text \<open>
  The relation between the locals and the state before and after the iterations
  \<open>i, \<dots>, length ps - 1\<close> of the second loop.
\<close>

definition pay_post ::
  "environment \<Rightarrow> message \<Rightarrow> Payment list \<Rightarrow> nat \<Rightarrow> frame \<Rightarrow> state \<Rightarrow> frame \<Rightarrow> state \<Rightarrow> bool" where
  "pay_post env ctx ps i f s f' s' \<longleftrightarrow>
     results f' = take i (results f) @ map (result_at env ps) [i..<length ps]
     \<and> unat (successCount f') = unat (successCount f) + length (filter (ok env) [i..<length ps])
     \<and> unat (failureCount f') =
           unat (failureCount f) + length (filter (\<lambda>j. \<not> ok env j) [i..<length ps])
     \<and> unat (totalProcessed f') = unat (totalProcessed f) + paid env ps [i..<length ps]
     \<and> events s' = events s @ map (event_at env ctx ps) [i..<length ps]
     \<and> totalPaymentsProcessed s' = totalPaymentsProcessed s
     \<and> totalVolumeProcessed s' = totalVolumeProcessed s
     \<and> (\<forall>a. balance s' a + (if a = this_address ctx then paid env ps [i..<length ps] else 0)
              = balance s a + paid_to env ps a [i..<length ps])"

subsection \<open>The states the body of batchPay goes through\<close>

text \<open>
  \<open>started\<close>: after \<open>BatchPaymentInitiated\<close>; \<open>counted\<close>: after the two statistics
  are updated and \<open>BatchPaymentCompleted\<close> is emitted; \<open>refunded\<close>: after a refund of
  \<open>tr - tp\<close> that the sender accepted (no call is made when the difference is zero).
\<close>

definition started :: "message \<Rightarrow> Payment list \<Rightarrow> uint256 \<Rightarrow> state \<Rightarrow> state" where
  "started ctx ps tr s =
     emit (BatchPaymentInitiated (msg_sender ctx) (of_nat (length ps)) tr (block_timestamp ctx)) s"

definition counted :: "message \<Rightarrow> frame \<Rightarrow> state \<Rightarrow> state" where
  "counted ctx f s =
     emit (BatchPaymentCompleted (msg_sender ctx) (successCount f) (failureCount f) (totalProcessed f))
       (s\<lparr>totalPaymentsProcessed := totalPaymentsProcessed s + successCount f,
          totalVolumeProcessed := totalVolumeProcessed s + totalProcessed f\<rparr>)"

definition refunded :: "environment \<Rightarrow> message \<Rightarrow> uint256 \<Rightarrow> uint256 \<Rightarrow> state \<Rightarrow> state" where
  "refunded env ctx tr tp s =
     (if tp < tr
      then s\<lparr>balance := move (this_address ctx) (msg_sender ctx) (unat (tr - tp)) (balance s)\<rparr>
      else s)"

text \<open>
  For a batch that passed validation: the error with which the call stops after the
  second loop, if any, and the state a completed call leaves.
\<close>

definition failure :: "environment \<Rightarrow> message \<Rightarrow> Payment list \<Rightarrow> state \<Rightarrow> error option" where
  "failure env ctx ps s =
     (if \<not> unat (totalPaymentsProcessed s) + n_ok env ps < 2 ^ 256 then Some Overflow
      else if \<not> unat (totalVolumeProcessed s) + paid env ps [0..<length ps] < 2 ^ 256
        then Some Overflow
      else if paid env ps [0..<length ps] < sum_amounts ps \<and> \<not> fst (env RefundCall)
        then Some RefundFailed
      else if sum_amounts ps < unat (msg_value ctx) \<and> \<not> fst (env ExcessRefundCall)
        then Some ExcessRefundFailed
      else None)"

definition settled :: "environment \<Rightarrow> message \<Rightarrow> Payment list \<Rightarrow> state \<Rightarrow> state \<Rightarrow> bool" where
  "settled env ctx ps s s' \<longleftrightarrow>
     unat (totalPaymentsProcessed s') = unat (totalPaymentsProcessed s) + n_ok env ps
     \<and> unat (totalVolumeProcessed s') =
           unat (totalVolumeProcessed s) + paid env ps [0..<length ps]
     \<and> events s' =
           events s
           @ [BatchPaymentInitiated (msg_sender ctx) (of_nat (length ps))
                (of_nat (sum_amounts ps)) (block_timestamp ctx)]
           @ map (event_at env ctx ps) [0..<length ps]
           @ [BatchPaymentCompleted (msg_sender ctx) (of_nat (n_ok env ps))
                (of_nat (n_failed env ps)) (of_nat (paid env ps [0..<length ps]))]
     \<and> (\<forall>a. balance s' a + (if a = msg_sender ctx then paid env ps [0..<length ps] else 0)
              = balance s a + paid_to env ps a [0..<length ps])"

subsection \<open>Reading the returned results\<close>

text \<open>
  \<open>delivered\<close> is the sum of the amounts of the successful results, \<open>received\<close>
  the part of it whose recipient is \<open>a\<close>.
\<close>

definition delivered :: "PaymentResult list \<Rightarrow> nat" where
  "delivered rs = (\<Sum>r\<leftarrow>filter success rs. unat (PaymentResult.amount r))"


subsection \<open>Concrete calls\<close>

text \<open>
  A sender with one ether sends three payments of \<open>MIN_AMOUNT\<close> each and attaches
  \<open>4 * MIN_AMOUNT\<close>. In \<open>env_second_fails\<close> the second recipient reverts with a
  reason, as the repository's \<open>RejectPayment\<close> test contract does; in
  \<open>env_refund_rejected\<close> the sender also rejects the refund; in
  \<open>env_excess_rejected\<close> every payment succeeds and the sender rejects the return of
  the excess.
\<close>

definition env_second_fails :: environment where
  "env_second_fails site =
     (if site = PaymentCall 1 then (False, Some ''Payment rejected'') else (True, None))"



definition demo_ctx :: message where
  "demo_ctx = \<lparr>msg_sender = 1, msg_value = 400000000000000, this_address = 9,
                block_timestamp = 1700000000\<rparr>"

definition demo_batch :: "Payment list" where
  "demo_batch = [\<lparr>Payment.recipient = 2, amount = 100000000000000\<rparr>,
                 \<lparr>Payment.recipient = 3, amount = 100000000000000\<rparr>,
                 \<lparr>Payment.recipient = 4, amount = 100000000000000\<rparr>]"

definition demo_state :: state where
  "demo_state = \<lparr>totalPaymentsProcessed = 0, totalVolumeProcessed = 0,
                  balance = (\<lambda>a. if a = 1 then 1000000000000000000 else 0), events = []\<rparr>"

definition demo_results :: "PaymentResult list" where
  "demo_results = [\<lparr>success = True, recipient = 2, amount = 100000000000000\<rparr>,
                   \<lparr>success = False, recipient = 3, amount = 100000000000000\<rparr>,
                   \<lparr>success = True, recipient = 4, amount = 100000000000000\<rparr>]"

text \<open>
  Two amounts of \<open>2 ^ 255\<close>, whose sum is \<open>2 ^ 256\<close>; and a single payment of
  nothing to the zero address.
\<close>

definition overflow_batch :: "Payment list" where
  "overflow_batch =
     [\<lparr>Payment.recipient = 2, amount = 2 ^ 255\<rparr>, \<lparr>Payment.recipient = 3, amount = 2 ^ 255\<rparr>]"

definition dust_to_nobody :: "Payment list" where
  "dust_to_nobody = [\<lparr>Payment.recipient = 0, amount = 0\<rparr>]"

subsection \<open>The second model: what the loop has recorded\<close>

text \<open>
  \<open>tallied w p ps i f\<close>: the locals \<open>f\<close> of the second loop, run against the callees
  \<open>w\<close> of the call \<open>p\<close>, are as \<open>i\<close> iterations leave them. The array of results
  has the length of the batch; each of its first \<open>i\<close> entries has the recipient and the
  amount of its payment and is marked successful only if the callee accepted; and the
  three counters are the number of successes, the number of failures and the sum of
  the successful amounts among these entries.
\<close>

definition tallied :: "world \<Rightarrow> path \<Rightarrow> Payment list \<Rightarrow> nat \<Rightarrow> frame \<Rightarrow> bool" where
  "tallied w p ps i f \<longleftrightarrow>
     length (results f) = length ps
     \<and> (\<forall>j<i. PaymentResult.recipient (results f ! j) = Payment.recipient (ps ! j)
            \<and> PaymentResult.amount (results f ! j) = Payment.amount (ps ! j)
            \<and> (success (results f ! j) \<longrightarrow> snd (w p (PaymentCall j)) = Accept))
     \<and> unat (successCount f) = length (filter success (take i (results f)))
     \<and> unat (failureCount f) = length (filter (\<lambda>r. \<not> success r) (take i (results f)))
     \<and> unat (totalProcessed f) = delivered (take i (results f))"

subsection \<open>The second model: the statistics before and after\<close>

text \<open>
  \<open>stats_le s s'\<close>: neither counter is lower in \<open>s'\<close> than in \<open>s\<close>; \<open>stats_eq s s'\<close>:
  both are the same. \<open>stats_monotone nested\<close>: no nested call lowers a counter.
  \<open>quiet w p\<close>: no callee of the call \<open>p\<close> calls the contract again.
\<close>

definition stats_le :: "state \<Rightarrow> state \<Rightarrow> bool" where
  "stats_le s s' \<longleftrightarrow>
     totalPaymentsProcessed s \<le> totalPaymentsProcessed s'
     \<and> totalVolumeProcessed s \<le> totalVolumeProcessed s'"

definition stats_eq :: "state \<Rightarrow> state \<Rightarrow> bool" where
  "stats_eq s s' \<longleftrightarrow>
     totalPaymentsProcessed s' = totalPaymentsProcessed s
     \<and> totalVolumeProcessed s' = totalVolumeProcessed s"

definition stats_monotone :: "nested \<Rightarrow> bool" where
  "stats_monotone nested \<longleftrightarrow> (\<forall>p ctx e s. stats_le s (snd (nested p ctx e s)))"

definition quiet :: "world \<Rightarrow> path \<Rightarrow> bool" where
  "quiet w p \<longleftrightarrow> (\<forall>site. list_all is_Move (fst (w p site)))"

subsection \<open>Callees that only accept or refuse\<close>



subsection \<open>Concrete callees\<close>

text \<open>
  In \<open>second_fails_world\<close> the second recipient reverts with a reason and every other
  callee accepts. In \<open>sender_rejects\<close> the sender rejects both refunds and every
  recipient accepts; in \<open>second_fails_sender_rejects\<close> the second recipient reverts as
  well. In \<open>second_exhausts\<close> the second recipient uses up the gas. \<open>exact_ctx\<close> is
  \<open>demo_ctx\<close> with exactly the sum of the three amounts of \<open>demo_batch\<close> attached.
\<close>

definition second_fails_world :: world where
  "second_fails_world p site =
     ([], if site = PaymentCall 1 then Refuse (Some ''Payment rejected'') else Accept)"

definition sender_rejects :: world where
  "sender_rejects p site =
     ([], if site = RefundCall \<or> site = ExcessRefundCall then Refuse None else Accept)"

definition second_fails_sender_rejects :: world where
  "second_fails_sender_rejects p site =
     ([], if site = PaymentCall 1 then Refuse (Some ''Payment rejected'')
          else if site = RefundCall \<or> site = ExcessRefundCall then Refuse None
          else Accept)"

definition second_exhausts :: world where
  "second_exhausts p site = ([], if site = PaymentCall 1 then Exhaust else Accept)"

definition exact_ctx :: message where
  "exact_ctx = \<lparr>msg_sender = 1, msg_value = 300000000000000, this_address = 9,
                 block_timestamp = 1700000000\<rparr>"

text \<open>
  A recipient that re-enters: the outermost call pays \<open>MIN_AMOUNT\<close> to account 2,
  whose code, before it accepts, calls \<open>batchPay\<close> itself with the amount it has just
  received, to pay account 3. Every other callee accepts and does nothing.
\<close>

definition greedy_world :: world where
  "greedy_world p site =
     (if p = [] \<and> site = PaymentCall 0
      then ([Reenter 2 100000000000000
               (BatchPay [\<lparr>Payment.recipient = 3, amount = 100000000000000\<rparr>])], Accept)
      else ([], Accept))"

definition single_ctx :: message where
  "single_ctx = \<lparr>msg_sender = 1, msg_value = 100000000000000, this_address = 9,
                  block_timestamp = 1700000000\<rparr>"

definition single_batch :: "Payment list" where
  "single_batch = [\<lparr>Payment.recipient = 2, amount = 100000000000000\<rparr>]"

section \<open>Lemmas about the loops and the call\<close>

subsection \<open>Words and errors\<close>

text \<open>
  The loop equations are unfolded by hand, one iteration at a time.
\<close>

declare validate_loop.simps [simp del] pay_loop.simps [simp del] estimate_loop.simps [simp del]

lemma unat_add_fit: "unat (a :: uint256) + unat b < 2 ^ 256 \<Longrightarrow> unat (a + b) = unat a + unat b"
  by (simp add: unat_word_ariths)

lemma unat_bound: "unat (w :: uint256) < 2 ^ 256"
  using unsigned_less [of w, where ?'a = nat] by simp

lemma unat_of_nat_fit: "n < 2 ^ 256 \<Longrightarrow> unat (of_nat n :: uint256) = n"
  by (simp add: unat_of_nat)

lemma word_less_unat: "(a :: uint256) < b \<longleftrightarrow> unat a < unat b"
  by (simp add: word_less_nat_alt)

lemma word_le_unat: "(a :: uint256) \<le> b \<longleftrightarrow> unat a \<le> unat b"
  by (simp add: word_le_nat_alt)

lemma errors_distinct:
  "EmptyBatch \<noteq> BatchTooLarge" "EmptyBatch \<noteq> InvalidRecipient" "EmptyBatch \<noteq> AmountTooSmall"
  "EmptyBatch \<noteq> InsufficientFunds" "EmptyBatch \<noteq> RefundFailed" "EmptyBatch \<noteq> ExcessRefundFailed"
  "EmptyBatch \<noteq> Overflow" "EmptyBatch \<noteq> OutOfFunds"
  "BatchTooLarge \<noteq> InvalidRecipient" "BatchTooLarge \<noteq> AmountTooSmall"
  "BatchTooLarge \<noteq> InsufficientFunds" "BatchTooLarge \<noteq> RefundFailed"
  "BatchTooLarge \<noteq> ExcessRefundFailed" "BatchTooLarge \<noteq> Overflow" "BatchTooLarge \<noteq> OutOfFunds"
  "InvalidRecipient \<noteq> AmountTooSmall" "InvalidRecipient \<noteq> InsufficientFunds"
  "InvalidRecipient \<noteq> RefundFailed" "InvalidRecipient \<noteq> ExcessRefundFailed"
  "InvalidRecipient \<noteq> Overflow" "InvalidRecipient \<noteq> OutOfFunds"
  "AmountTooSmall \<noteq> InsufficientFunds" "AmountTooSmall \<noteq> RefundFailed"
  "AmountTooSmall \<noteq> ExcessRefundFailed" "AmountTooSmall \<noteq> Overflow" "AmountTooSmall \<noteq> OutOfFunds"
  "InsufficientFunds \<noteq> RefundFailed" "InsufficientFunds \<noteq> ExcessRefundFailed"
  "InsufficientFunds \<noteq> Overflow" "InsufficientFunds \<noteq> OutOfFunds"
  "RefundFailed \<noteq> ExcessRefundFailed" "RefundFailed \<noteq> Overflow" "RefundFailed \<noteq> OutOfFunds"
  "ExcessRefundFailed \<noteq> Overflow" "ExcessRefundFailed \<noteq> OutOfFunds"
  "Overflow \<noteq> OutOfFunds"
  by (simp_all add: EmptyBatch_def BatchTooLarge_def InvalidRecipient_def AmountTooSmall_def
        InsufficientFunds_def RefundFailed_def ExcessRefundFailed_def Overflow_def)

subsection \<open>The first loop and estimateBatchCost\<close>

text \<open>
  The indexed loops compute the list recursions, and these have closed forms: the first
  check that fails decides the result.
\<close>

lemma validate_loop_list: "validate_loop ps i t = validate_list (drop i ps) t"
proof (induction ps i t rule: validate_loop.induct)
  case (1 ps i t)
  show ?case
  proof (cases "i < length ps")
    case True
    then have d: "drop i ps = ps ! i # drop (Suc i) ps"
      by (simp add: Cons_nth_drop_Suc)
    show ?thesis
      using True 1
      by (subst validate_loop.simps)
         (simp add: d InvalidRecipient_def AmountTooSmall_def not_le split: sum.splits)
  next
    case False
    then show ?thesis by (subst validate_loop.simps) simp
  qed
qed

lemma validate_list_Inr:
  "validate_list ps t = Inr r \<longleftrightarrow>
     (\<forall>p \<in> set ps. well_formed p) \<and> unat t + sum_amounts ps < 2 ^ 256
     \<and> unat r = unat t + sum_amounts ps"
proof (induction ps arbitrary: t)
  case Nil
  show ?case
    using unat_bound [of r] by (auto simp: sum_amounts_def word_unat_eq_iff)
next
  case (Cons p ps)
  show ?case
  proof (cases "well_formed p \<and> unat t + unat (Payment.amount p) < 2 ^ 256")
    case True
    then have "validate_list (p # ps) t = validate_list ps (t + Payment.amount p)"
      by (auto simp: well_formed_def checked_add_def)
    moreover have "unat (t + Payment.amount p) = unat t + unat (Payment.amount p)"
      using True by (simp add: unat_add_fit)
    ultimately show ?thesis
      using True Cons.IH [of "t + Payment.amount p"]
      by (auto simp: sum_amounts_def)
  next
    case False
    then show ?thesis
      by (auto simp: well_formed_def checked_add_def sum_amounts_def not_le split: sum.splits)
  qed
qed

lemma validate_list_closed:
  "validate_list ps t =
     (if \<not> unat t + sum_amounts (takeWhile well_formed ps) < 2 ^ 256 then Inl Overflow
      else if dropWhile well_formed ps = [] then Inr (t + of_nat (sum_amounts ps))
      else if Payment.recipient (hd (dropWhile well_formed ps)) = 0 then Inl InvalidRecipient
      else Inl AmountTooSmall)"
proof (induction ps arbitrary: t)
  case Nil
  show ?case
    using unat_bound [of t] by (simp add: sum_amounts_def)
next
  case (Cons p ps)
  show ?case
  proof (cases "well_formed p")
    case False
    then show ?thesis
      using unat_bound [of t] by (auto simp: well_formed_def sum_amounts_def)
  next
    case wf: True
    show ?thesis
    proof (cases "unat t + unat (Payment.amount p) < 2 ^ 256")
      case True
      then have u: "unat (t + Payment.amount p) = unat t + unat (Payment.amount p)"
        by (simp add: unat_add_fit)
      have v: "validate_list (p # ps) t = validate_list ps (t + Payment.amount p)"
        using wf True by (auto simp: well_formed_def checked_add_def)
      show ?thesis
        using wf by (simp only: v Cons.IH u) (simp add: sum_amounts_def add.assoc)
    next
      case False
      then have "validate_list (p # ps) t = Inl Overflow"
        using wf by (auto simp: well_formed_def checked_add_def)
      then show ?thesis
        using wf False by (simp add: sum_amounts_def)
    qed
  qed
qed

lemma validPayments_Inr:
  "validPayments ps = Inr u \<longleftrightarrow> 0 < length ps \<and> length ps \<le> 100"
  by (simp add: validPayments_def MAX_RECIPIENTS_def)

lemma validate_loop_Inr:
  "validate_loop ps 0 0 = Inr tr \<longleftrightarrow>
     (\<forall>p \<in> set ps. well_formed p) \<and> sum_amounts ps < 2 ^ 256 \<and> unat tr = sum_amounts ps"
  by (simp add: validate_loop_list validate_list_Inr)

lemma validate_loop_closed:
  "validate_loop ps 0 0 =
     (if \<not> sum_amounts (takeWhile well_formed ps) < 2 ^ 256 then Inl Overflow
      else if dropWhile well_formed ps = [] then Inr (of_nat (sum_amounts ps))
      else if Payment.recipient (hd (dropWhile well_formed ps)) = 0 then Inl InvalidRecipient
      else Inl AmountTooSmall)"
  by (simp add: validate_loop_list validate_list_closed)

lemma takeWhile_well_formed:
  "\<forall>p \<in> set ps. well_formed p \<Longrightarrow> takeWhile well_formed ps = ps"
  by (simp add: takeWhile_eq_all_conv)

lemma precheck_None:
  "precheck ps v = None \<longleftrightarrow>
     validPayments ps = Inr () \<and> (\<exists>tr. validate_loop ps 0 0 = Inr tr \<and> tr \<le> v)"
proof (cases "0 < length ps \<and> length ps \<le> 100 \<and> (\<forall>p \<in> set ps. well_formed p)
               \<and> sum_amounts ps < 2 ^ 256")
  case True
  then have all: "takeWhile well_formed ps = ps" "dropWhile well_formed ps = []"
    by (simp_all add: takeWhile_eq_all_conv)
  have u: "unat (of_nat (sum_amounts ps) :: uint256) = sum_amounts ps"
    using True by (simp add: unat_of_nat_fit)
  show ?thesis
    using True all u
    by (auto simp: precheck_def validPayments_Inr validate_loop_closed word_le_unat)
next
  case False
  have "precheck ps v \<noteq> None"
  proof (cases "\<forall>p \<in> set ps. well_formed p")
    case True
    then have tw: "takeWhile well_formed ps = ps"
      by (simp add: takeWhile_eq_all_conv)
    show ?thesis
      using False True by (auto simp: precheck_def tw)
  next
    case False
    then show ?thesis
      by (auto simp: precheck_def dropWhile_eq_Nil_conv)
  qed
  moreover have "\<not> (validPayments ps = Inr () \<and> (\<exists>tr. validate_loop ps 0 0 = Inr tr \<and> tr \<le> v))"
    using False by (auto simp: validPayments_Inr validate_loop_Inr)
  ultimately show ?thesis by blast
qed

lemma precheck_None_sum:
  "precheck ps v = None \<Longrightarrow> sum_amounts ps \<le> unat v \<and> sum_amounts ps < 2 ^ 256"
  using unat_bound [of v] by (auto simp: precheck_def split: if_splits)

lemma precheck_iffs:
  "precheck ps v = Some EmptyBatch \<longleftrightarrow> length ps = 0"
  "precheck ps v = Some BatchTooLarge \<longleftrightarrow> 100 < length ps"
  "precheck ps v = Some InvalidRecipient \<longleftrightarrow>
     0 < length ps \<and> length ps \<le> 100 \<and> sum_amounts (takeWhile well_formed ps) < 2 ^ 256
     \<and> dropWhile well_formed ps \<noteq> [] \<and> Payment.recipient (hd (dropWhile well_formed ps)) = 0"
  "precheck ps v = Some AmountTooSmall \<longleftrightarrow>
     0 < length ps \<and> length ps \<le> 100 \<and> sum_amounts (takeWhile well_formed ps) < 2 ^ 256
     \<and> dropWhile well_formed ps \<noteq> [] \<and> Payment.recipient (hd (dropWhile well_formed ps)) \<noteq> 0"
  "precheck ps v = Some InsufficientFunds \<longleftrightarrow>
     0 < length ps \<and> length ps \<le> 100 \<and> (\<forall>p \<in> set ps. well_formed p)
     \<and> sum_amounts ps < 2 ^ 256 \<and> unat v < sum_amounts ps"
proof -
  show "precheck ps v = Some EmptyBatch \<longleftrightarrow> length ps = 0"
    using errors_distinct by (auto simp: precheck_def)
  show "precheck ps v = Some BatchTooLarge \<longleftrightarrow> 100 < length ps"
    using errors_distinct by (auto simp: precheck_def)
  show "precheck ps v = Some InvalidRecipient \<longleftrightarrow>
     0 < length ps \<and> length ps \<le> 100 \<and> sum_amounts (takeWhile well_formed ps) < 2 ^ 256
     \<and> dropWhile well_formed ps \<noteq> [] \<and> Payment.recipient (hd (dropWhile well_formed ps)) = 0"
    using errors_distinct by (auto simp: precheck_def)
  show "precheck ps v = Some AmountTooSmall \<longleftrightarrow>
     0 < length ps \<and> length ps \<le> 100 \<and> sum_amounts (takeWhile well_formed ps) < 2 ^ 256
     \<and> dropWhile well_formed ps \<noteq> [] \<and> Payment.recipient (hd (dropWhile well_formed ps)) \<noteq> 0"
    using errors_distinct by (auto simp: precheck_def)
  show "precheck ps v = Some InsufficientFunds \<longleftrightarrow>
     0 < length ps \<and> length ps \<le> 100 \<and> (\<forall>p \<in> set ps. well_formed p)
     \<and> sum_amounts ps < 2 ^ 256 \<and> unat v < sum_amounts ps"
  proof (cases "\<forall>p \<in> set ps. well_formed p")
    case True
    then show ?thesis
      using errors_distinct
      by (auto simp: precheck_def takeWhile_well_formed)
  next
    case False
    then show ?thesis
      using errors_distinct by (auto simp: precheck_def dropWhile_eq_Nil_conv)
  qed
qed

lemma estimate_loop_list: "estimate_loop ps i t = estimate_list (drop i ps) t"
proof (induction ps i t rule: estimate_loop.induct)
  case (1 ps i t)
  show ?case
  proof (cases "i < length ps")
    case True
    then have d: "drop i ps = ps ! i # drop (Suc i) ps"
      by (simp add: Cons_nth_drop_Suc)
    show ?thesis
      using True 1
      by (subst estimate_loop.simps) (simp add: d split: sum.splits)
  next
    case False
    then show ?thesis by (subst estimate_loop.simps) simp
  qed
qed

lemma estimate_list_closed:
  "estimate_list ps t =
     (if unat t + sum_amounts ps < 2 ^ 256 then Inr (t + of_nat (sum_amounts ps)) else Inl Overflow)"
proof (induction ps arbitrary: t)
  case Nil
  show ?case
    using unat_bound [of t] by (simp add: sum_amounts_def)
next
  case (Cons p ps)
  show ?case
  proof (cases "unat t + unat (Payment.amount p) < 2 ^ 256")
    case True
    then have u: "unat (t + Payment.amount p) = unat t + unat (Payment.amount p)"
      by (simp add: unat_add_fit)
    have v: "estimate_list (p # ps) t = estimate_list ps (t + Payment.amount p)"
      using True by (simp add: checked_add_def)
    show ?thesis
      by (simp only: v Cons.IH u) (simp add: sum_amounts_def add.assoc)
  next
    case False
    then show ?thesis
      by (simp add: checked_add_def sum_amounts_def)
  qed
qed

lemma estimateBatchCost_closed:
  "estimateBatchCost ps =
     (if sum_amounts ps < 2 ^ 256 then Inr (of_nat (sum_amounts ps)) else Inl Overflow)"
  by (simp add: estimateBatchCost_def estimate_loop_list estimate_list_closed)

subsection \<open>The second loop\<close>

text \<open>
  One iteration, then all of them: when the contract holds what is still to pay and the
  counters have room, the loop returns, and \<open>pay_post\<close> relates what it returns to what
  it started from.
\<close>

lemma pay_loop_done: "\<not> i < length ps \<Longrightarrow> pay_loop env ctx ps i f s = (Inr f, s)"
  by (subst pay_loop.simps) simp

lemma pay_loop_step:
  assumes "i < length ps"
    and "unat (Payment.amount (ps ! i)) \<le> balance s (this_address ctx)"
    and "unat (successCount f) + 1 < 2 ^ 256"
    and "unat (failureCount f) + 1 < 2 ^ 256"
    and "unat (totalProcessed f) + unat (Payment.amount (ps ! i)) < 2 ^ 256"
  shows "pay_loop env ctx ps i f s =
           pay_loop env ctx ps (i + 1)
             (f\<lparr>results := (results f)[i := result_at env ps i],
                successCount := (if ok env i then successCount f + 1 else successCount f),
                failureCount := (if ok env i then failureCount f else failureCount f + 1),
                totalProcessed := (if ok env i then totalProcessed f + Payment.amount (ps ! i)
                                   else totalProcessed f)\<rparr>)
             (s\<lparr>balance := (if ok env i
                              then move (this_address ctx) (Payment.recipient (ps ! i))
                                     (unat (Payment.amount (ps ! i))) (balance s)
                              else balance s),
                events := events s @ [event_at env ctx ps i]\<rparr>)"
  using assms
  by (subst pay_loop.simps)
     (simp add: call_value_def checked_add_def Let_def ok_def result_at_def event_at_def emit_def
        not_less)

lemma pay_post_balance:
  "pay_post env ctx ps i f s f' s' \<Longrightarrow>
     balance s' a + (if a = this_address ctx then paid env ps [i..<length ps] else 0)
       = balance s a + paid_to env ps a [i..<length ps]"
  by (simp add: pay_post_def)

lemma paid_le_sum_amounts: "i \<le> length ps \<Longrightarrow> paid env ps [i..<length ps] \<le> sum_amounts (drop i ps)"
proof (induction "length ps - i" arbitrary: i)
  case 0
  then show ?case by (simp add: paid_def sum_amounts_def)
next
  case (Suc k)
  then have lt: "i < length ps" by simp
  have "paid env ps [Suc i..<length ps] \<le> sum_amounts (drop (Suc i) ps)"
    using Suc lt by simp
  then show ?case
    using lt by (simp add: upt_conv_Cons paid_def sum_amounts_def flip: Cons_nth_drop_Suc)
qed





lemma pay_loop_closed:
  assumes "i \<le> length ps"
    and "length (results f) = length ps"
    and "sum_amounts (drop i ps) \<le> balance s (this_address ctx)"
    and "unat (successCount f) + (length ps - i) < 2 ^ 256"
    and "unat (failureCount f) + (length ps - i) < 2 ^ 256"
    and "unat (totalProcessed f) + sum_amounts (drop i ps) < 2 ^ 256"
  shows "\<exists>f' s'. pay_loop env ctx ps i f s = (Inr f', s') \<and> pay_post env ctx ps i f s f' s'"
  using assms
proof (induction "length ps - i" arbitrary: i f s)
  case 0
  then have "pay_loop env ctx ps i f s = (Inr f, s)"
    by (simp add: pay_loop_done)
  moreover have "pay_post env ctx ps i f s f s"
    using 0 by (simp add: pay_post_def paid_def paid_to_def)
  ultimately show ?case by blast
next
  case (Suc k)
  then have lt: "i < length ps" by simp
  define v where "v = unat (Payment.amount (ps ! i))"
  define r where "r = Payment.recipient (ps ! i)"
  have d: "sum_amounts (drop i ps) = v + sum_amounts (drop (Suc i) ps)"
    using lt by (simp add: sum_amounts_def v_def flip: Cons_nth_drop_Suc)
  define f1 where "f1 = f\<lparr>results := (results f)[i := result_at env ps i],
                successCount := (if ok env i then successCount f + 1 else successCount f),
                failureCount := (if ok env i then failureCount f else failureCount f + 1),
                totalProcessed := (if ok env i then totalProcessed f + Payment.amount (ps ! i)
                                   else totalProcessed f)\<rparr>"
  define s1 where "s1 = s\<lparr>balance := (if ok env i
                              then move (this_address ctx) (Payment.recipient (ps ! i))
                                     (unat (Payment.amount (ps ! i))) (balance s)
                              else balance s),
                events := events s @ [event_at env ctx ps i]\<rparr>"
  have vb: "v \<le> balance s (this_address ctx)"
    using Suc.prems(3) d by simp
  have step: "pay_loop env ctx ps i f s = pay_loop env ctx ps (Suc i) f1 s1"
    unfolding f1_def s1_def
    using pay_loop_step [of i ps s ctx f env] lt vb Suc.prems(4,5,6) d
    by (simp add: v_def)
  have sc1: "unat (successCount f1) = unat (successCount f) + (if ok env i then 1 else 0)"
    using Suc.prems(4) lt by (simp add: f1_def unat_add_fit)
  have fc1: "unat (failureCount f1) = unat (failureCount f) + (if ok env i then 0 else 1)"
    using Suc.prems(5) lt by (simp add: f1_def unat_add_fit)
  have tp1: "unat (totalProcessed f1) = unat (totalProcessed f) + (if ok env i then v else 0)"
    using Suc.prems(6) d by (simp add: f1_def unat_add_fit v_def)
  have bal1: "balance s1 a + (if a = this_address ctx \<and> ok env i then v else 0)
                = balance s a + (if a = r \<and> ok env i then v else 0)" for a
    using vb by (simp add: s1_def v_def r_def move_def Let_def)
  have "sum_amounts (drop (Suc i) ps) \<le> balance s1 (this_address ctx)"
    using bal1 [of "this_address ctx"] Suc.prems(3) d by (simp split: if_splits)
  moreover have "unat (successCount f1) + (length ps - Suc i) < 2 ^ 256"
    using sc1 Suc.prems(4) lt by (cases "ok env i") simp_all
  moreover have "unat (failureCount f1) + (length ps - Suc i) < 2 ^ 256"
    using fc1 Suc.prems(5) lt by (cases "ok env i") simp_all
  moreover have "unat (totalProcessed f1) + sum_amounts (drop (Suc i) ps) < 2 ^ 256"
    using tp1 Suc.prems(6) d by (cases "ok env i") simp_all
  moreover have "length (results f1) = length ps"
    using Suc.prems(2) by (simp add: f1_def)
  moreover have "k = length ps - Suc i" "Suc i \<le> length ps"
    using Suc.hyps(2) lt by simp_all
  ultimately obtain f' s' where
    run: "pay_loop env ctx ps (Suc i) f1 s1 = (Inr f', s')"
    and post: "pay_post env ctx ps (Suc i) f1 s1 f' s'"
    using Suc.hyps(1) [of "Suc i" f1 s1] by blast
  have upt: "[i..<length ps] = i # [Suc i..<length ps]"
    using lt by (simp add: upt_conv_Cons)
  have res: "take (Suc i) (results f1) = take i (results f) @ [result_at env ps i]"
    using lt Suc.prems(2) by (simp add: f1_def take_Suc_conv_app_nth)
  have "pay_post env ctx ps i f s f' s'"
    unfolding pay_post_def
  proof (intro conjI allI)
    show "results f' = take i (results f) @ map (result_at env ps) [i..<length ps]"
      using post res by (simp add: pay_post_def upt)
    show "unat (successCount f') = unat (successCount f) + length (filter (ok env) [i..<length ps])"
      using post sc1 by (simp add: pay_post_def upt)
    show "unat (failureCount f') =
            unat (failureCount f) + length (filter (\<lambda>j. \<not> ok env j) [i..<length ps])"
      using post fc1 by (simp add: pay_post_def upt)
    show "unat (totalProcessed f') = unat (totalProcessed f) + paid env ps [i..<length ps]"
      using post tp1 by (simp add: pay_post_def upt paid_def v_def)
    show "events s' = events s @ map (event_at env ctx ps) [i..<length ps]"
      using post by (simp add: pay_post_def upt s1_def)
    show "totalPaymentsProcessed s' = totalPaymentsProcessed s"
      using post by (simp add: pay_post_def s1_def)
    show "totalVolumeProcessed s' = totalVolumeProcessed s"
      using post by (simp add: pay_post_def s1_def)
  next
    fix a
    have "balance s' a + (if a = this_address ctx then paid env ps [Suc i..<length ps] else 0)
            = balance s1 a + paid_to env ps a [Suc i..<length ps]"
      using post by (simp add: pay_post_def)
    then show "balance s' a + (if a = this_address ctx then paid env ps [i..<length ps] else 0)
            = balance s a + paid_to env ps a [i..<length ps]"
      using bal1 [of a]
      by (simp add: upt paid_def paid_to_def v_def r_def split: if_splits)
  qed
  then show ?case
    using step run by simp
qed

lemma call_value_stats:
  "totalPaymentsProcessed (snd (call_value env site src dst v s)) = totalPaymentsProcessed s"
  "totalVolumeProcessed (snd (call_value env site src dst v s)) = totalVolumeProcessed s"
  by (simp_all add: call_value_def)

lemma pay_loop_stats:
  "totalPaymentsProcessed (snd (pay_loop env ctx ps i f s)) = totalPaymentsProcessed s
   \<and> totalVolumeProcessed (snd (pay_loop env ctx ps i f s)) = totalVolumeProcessed s"
proof (induction env ctx ps i f s rule: pay_loop.induct)
  case (1 env ctx ps i f s)
  show ?case
  proof (cases "i < length ps")
    case False
    then show ?thesis by (simp add: pay_loop_done)
  next
    case True
    obtain ret s1 where cv: "call_value env (PaymentCall i) (this_address ctx)
        (Payment.recipient (ps ! i)) (Payment.amount (ps ! i)) s = (ret, s1)"
      by (cases "call_value env (PaymentCall i) (this_address ctx)
        (Payment.recipient (ps ! i)) (Payment.amount (ps ! i)) s")
    have s1: "totalPaymentsProcessed s1 = totalPaymentsProcessed s"
      "totalVolumeProcessed s1 = totalVolumeProcessed s"
      using call_value_stats [of env "PaymentCall i" "this_address ctx"
        "Payment.recipient (ps ! i)" "Payment.amount (ps ! i)" s] cv by simp_all
    show ?thesis
      using True cv s1 1 [OF True refl refl cv [symmetric] refl refl]
      apply (subst (1 2) pay_loop.simps)
      apply (simp add: Let_def emit_def split: sum.splits)
      done
  qed
qed



lemma successes_results:
  "length (filter success (map (result_at env ps) js)) = length (filter (ok env) js)"
  by (induction js) (simp_all add: result_at_def)

subsection \<open>The reconciliation\<close>

lemma refunded_balance:
  assumes "tp \<le> tr" and "unat tr - unat tp \<le> balance s (this_address ctx)"
  shows "balance (refunded env ctx tr tp s) a
           + (if a = this_address ctx then unat tr - unat tp else 0)
         = balance s a + (if a = msg_sender ctx then unat tr - unat tp else 0)"
proof (cases "tp < tr")
  case True
  then show ?thesis
    using assms by (simp add: refunded_def unat_sub move_def Let_def)
next
  case False
  then have "unat tr - unat tp = 0"
    by (simp add: word_less_unat)
  then show ?thesis
    using False by (simp add: refunded_def)
qed

lemma refunded_other:
  "totalPaymentsProcessed (refunded env ctx tr tp s) = totalPaymentsProcessed s"
  "totalVolumeProcessed (refunded env ctx tr tp s) = totalVolumeProcessed s"
  "events (refunded env ctx tr tp s) = events s"
  by (simp_all add: refunded_def)

lemma reconcile_closed:
  assumes "tp \<le> tr" and "tr \<le> msg_value ctx"
    and "unat (msg_value ctx) - unat tp \<le> balance s (this_address ctx)"
  shows "reconcile env ctx tr tp s =
           (if tp < tr \<and> \<not> fst (env RefundCall) then (Inl RefundFailed, s)
            else if tr < msg_value ctx \<and> \<not> fst (env ExcessRefundCall)
              then (Inl ExcessRefundFailed, refunded env ctx tr tp s)
            else (Inr (), refunded env ctx (msg_value ctx) tr (refunded env ctx tr tp s)))"
proof -
  have le: "unat tp \<le> unat tr" "unat tr \<le> unat (msg_value ctx)"
    using assms(1,2) by (simp_all add: word_le_unat)
  have pos1: "0 < tr - tp \<longleftrightarrow> tp < tr"
    using assms(1) by (simp add: word_less_unat unat_sub)
  have pos2: "0 < msg_value ctx - tr \<longleftrightarrow> tr < msg_value ctx"
    using assms(2) by (simp add: word_less_unat unat_sub)
  have b1: "unat (tr - tp) \<le> balance s (this_address ctx)"
    using assms(1,3) le by (simp add: unat_sub)
  have b2: "unat (msg_value ctx - tr) \<le> balance (refunded env ctx tr tp s) (this_address ctx)"
    using assms le by (auto simp: refunded_def unat_sub move_def Let_def)
  have c1: "checked_sub tr tp = Inr (tr - tp)"
    using assms(1) by (simp add: checked_sub_def)
  have c2: "checked_sub (msg_value ctx) tr = Inr (msg_value ctx - tr)"
    using assms(2) by (simp add: checked_sub_def)
  have call1: "call_value env RefundCall (this_address ctx) (msg_sender ctx) (tr - tp) s =
      (env RefundCall, if fst (env RefundCall) then refunded env ctx tr tp s else s)"
    if "tp < tr"
    using b1 that by (simp add: call_value_def refunded_def)
  have call2: "call_value env ExcessRefundCall (this_address ctx) (msg_sender ctx)
        (msg_value ctx - tr) (refunded env ctx tr tp s) =
      (env ExcessRefundCall,
       if fst (env ExcessRefundCall)
       then refunded env ctx (msg_value ctx) tr (refunded env ctx tr tp s)
       else refunded env ctx tr tp s)"
    if "tr < msg_value ctx"
    using b2 that by (simp add: call_value_def refunded_def)
  have same1: "refunded env ctx tr tp s = s" if "\<not> tp < tr"
    using that by (simp add: refunded_def)
  have same2: "refunded env ctx (msg_value ctx) tr s' = s'" if "\<not> tr < msg_value ctx" for s'
    using that by (simp add: refunded_def)
  show ?thesis
  proof (cases "tp < tr")
    case lt1: True
    show ?thesis
    proof (cases "fst (env RefundCall)")
      case r: True
      show ?thesis
      proof (cases "tr < msg_value ctx")
        case True
        then show ?thesis
          using lt1 r
          by (simp add: reconcile_def c1 c2 pos1 pos2 call1 call2 ExcessRefundFailed_def)
      next
        case False
        then show ?thesis
          using lt1 r
          by (simp add: reconcile_def c1 c2 pos1 pos2 call1 same2)
      qed
    next
      case False
      then show ?thesis
        using lt1 by (simp add: reconcile_def c1 pos1 call1 RefundFailed_def)
    qed
  next
    case ge1: False
    show ?thesis
    proof (cases "tr < msg_value ctx")
      case True
      then show ?thesis
        using ge1 call2 [OF True]
        by (simp add: reconcile_def c1 c2 pos1 pos2 same1 ExcessRefundFailed_def)
    next
      case False
      then show ?thesis
        using ge1
        by (simp add: reconcile_def c1 c2 pos1 pos2 same1 same2)
    qed
  qed
qed

subsection \<open>The body of batchPay\<close>

text \<open>
  For a batch that passes validation the body ends in one of five ways, decided by the
  room in the statistics and by the answers of the sender to the two refunds.
\<close>

lemma batchPay_valid:
  assumes "validPayments ps = Inr ()"
    and "validate_loop ps 0 0 = Inr tr"
    and "tr \<le> msg_value ctx"
    and "unat (msg_value ctx) \<le> balance s (this_address ctx)"
  shows "\<exists>f s2.
      pay_post env ctx ps 0 (frame0 (length ps)) (started ctx ps tr s) f s2 \<and>
      batchPay env ctx ps s =
        (if \<not> unat (totalPaymentsProcessed s) + unat (successCount f) < 2 ^ 256
           then (Inl Overflow, s2)
         else if \<not> unat (totalVolumeProcessed s) + unat (totalProcessed f) < 2 ^ 256
           then (Inl Overflow, s2\<lparr>totalPaymentsProcessed := totalPaymentsProcessed s + successCount f\<rparr>)
         else if totalProcessed f < tr \<and> \<not> fst (env RefundCall)
           then (Inl RefundFailed, counted ctx f s2)
         else if tr < msg_value ctx \<and> \<not> fst (env ExcessRefundCall)
           then (Inl ExcessRefundFailed, refunded env ctx tr (totalProcessed f) (counted ctx f s2))
         else (Inr (results f),
               refunded env ctx (msg_value ctx) tr
                 (refunded env ctx tr (totalProcessed f) (counted ctx f s2))))"
proof -
  have n: "0 < length ps" "length ps \<le> 100"
    using assms(1) by (simp_all add: validPayments_Inr)
  have tr: "sum_amounts ps < 2 ^ 256" "unat tr = sum_amounts ps"
    using assms(2) by (simp_all add: validate_loop_Inr)
  have v: "unat tr \<le> unat (msg_value ctx)"
    using assms(3) by (simp add: word_le_unat)
  define f0 where "f0 = frame0 (length ps)"
  define s1 where "s1 = started ctx ps tr s"
  have bal1: "balance s1 = balance s"
    by (simp add: s1_def started_def emit_def)
  have "\<exists>f' s'. pay_loop env ctx ps 0 f0 s1 = (Inr f', s') \<and> pay_post env ctx ps 0 f0 s1 f' s'"
  proof (rule pay_loop_closed)
    show "0 \<le> length ps" by simp
    show "length (results f0) = length ps" by (simp add: f0_def frame0_def)
    show "sum_amounts (drop 0 ps) \<le> balance s1 (this_address ctx)"
      using tr v assms(4) bal1 by simp
    show "unat (successCount f0) + (length ps - 0) < 2 ^ 256"
      using n by (simp add: f0_def frame0_def)
    show "unat (failureCount f0) + (length ps - 0) < 2 ^ 256"
      using n by (simp add: f0_def frame0_def)
    show "unat (totalProcessed f0) + sum_amounts (drop 0 ps) < 2 ^ 256"
      using tr by (simp add: f0_def frame0_def)
  qed
  then obtain f s2 where run: "pay_loop env ctx ps 0 f0 s1 = (Inr f, s2)"
    and post: "pay_post env ctx ps 0 f0 s1 f s2"
    by blast
  have stats2: "totalPaymentsProcessed s2 = totalPaymentsProcessed s"
    "totalVolumeProcessed s2 = totalVolumeProcessed s"
    using post by (simp_all add: pay_post_def s1_def started_def emit_def)
  have tp: "unat (totalProcessed f) = paid env ps [0..<length ps]"
    using post by (simp add: pay_post_def f0_def frame0_def)
  have "paid env ps [0..<length ps] \<le> sum_amounts (drop 0 ps)"
    by (rule paid_le_sum_amounts) simp
  then have tp_le: "totalProcessed f \<le> tr"
    using tp tr by (simp add: word_le_unat)
  have "balance s2 (this_address ctx) + paid env ps [0..<length ps]
          = balance s1 (this_address ctx) + paid_to env ps (this_address ctx) [0..<length ps]"
    using pay_post_balance [OF post, of "this_address ctx"] by simp
  then have bal: "unat (msg_value ctx) - unat (totalProcessed f)
                    \<le> balance (counted ctx f s2) (this_address ctx)"
    using tp bal1 assms(4) by (simp add: counted_def emit_def)
  have rec: "reconcile env ctx tr (totalProcessed f) (counted ctx f s2) =
           (if totalProcessed f < tr \<and> \<not> fst (env RefundCall)
              then (Inl RefundFailed, counted ctx f s2)
            else if tr < msg_value ctx \<and> \<not> fst (env ExcessRefundCall)
              then (Inl ExcessRefundFailed, refunded env ctx tr (totalProcessed f) (counted ctx f s2))
            else (Inr (), refunded env ctx (msg_value ctx) tr
                            (refunded env ctx tr (totalProcessed f) (counted ctx f s2))))"
    using tp_le assms(3) bal by (rule reconcile_closed)
  have body: "batchPay env ctx ps s =
     (case checked_add (totalPaymentsProcessed s2) (successCount f) of
        Inl e \<Rightarrow> (Inl e, s2)
      | Inr n \<Rightarrow>
          (case checked_add (totalVolumeProcessed s2) (totalProcessed f) of
             Inl e \<Rightarrow> (Inl e, s2\<lparr>totalPaymentsProcessed := n\<rparr>)
           | Inr v \<Rightarrow>
               (case reconcile env ctx tr (totalProcessed f)
                       (emit (BatchPaymentCompleted (msg_sender ctx) (successCount f)
                                (failureCount f) (totalProcessed f))
                          (s2\<lparr>totalPaymentsProcessed := n, totalVolumeProcessed := v\<rparr>)) of
                  (Inl e, s6) \<Rightarrow> (Inl e, s6)
                | (Inr _, s6) \<Rightarrow> (Inr (results f), s6))))"
    using assms(1,2,3) run
    by (simp add: batchPay_def Let_def f0_def s1_def frame0_def started_def split: sum.split)
  have "batchPay env ctx ps s =
        (if \<not> unat (totalPaymentsProcessed s) + unat (successCount f) < 2 ^ 256
           then (Inl Overflow, s2)
         else if \<not> unat (totalVolumeProcessed s) + unat (totalProcessed f) < 2 ^ 256
           then (Inl Overflow, s2\<lparr>totalPaymentsProcessed := totalPaymentsProcessed s + successCount f\<rparr>)
         else if totalProcessed f < tr \<and> \<not> fst (env RefundCall)
           then (Inl RefundFailed, counted ctx f s2)
         else if tr < msg_value ctx \<and> \<not> fst (env ExcessRefundCall)
           then (Inl ExcessRefundFailed, refunded env ctx tr (totalProcessed f) (counted ctx f s2))
         else (Inr (results f),
               refunded env ctx (msg_value ctx) tr
                 (refunded env ctx tr (totalProcessed f) (counted ctx f s2))))"
    unfolding body
    using rec
    by (simp add: checked_add_def stats2 counted_def)
  then show ?thesis
    using post unfolding f0_def s1_def by blast
qed

lemma batchPay_precheck_Some:
  assumes "precheck ps (msg_value ctx) = Some e"
  shows "batchPay env ctx ps s = (Inl e, s)"
proof (cases "length ps = 0 \<or> 100 < length ps")
  case True
  then show ?thesis
    using assms
    by (auto simp: precheck_def batchPay_def validPayments_def MAX_RECIPIENTS_def
          EmptyBatch_def BatchTooLarge_def)
next
  case False
  then have vp: "validPayments ps = Inr ()"
    by (simp add: validPayments_def MAX_RECIPIENTS_def)
  show ?thesis
  proof (cases "sum_amounts (takeWhile well_formed ps) < 2 ^ 256 \<and> dropWhile well_formed ps = []")
    case ok: True
    then have all: "takeWhile well_formed ps = ps"
      by (simp add: takeWhile_eq_all_conv)
    have lt: "unat (msg_value ctx) < sum_amounts ps" and e: "e = InsufficientFunds"
      using assms False ok by (simp_all add: precheck_def split: if_splits)
    have "unat (of_nat (sum_amounts ps) :: uint256) = sum_amounts ps"
      using ok all by (simp add: unat_of_nat_fit)
    then have "\<not> (of_nat (sum_amounts ps) :: uint256) \<le> msg_value ctx"
      using lt by (simp add: word_le_unat)
    then show ?thesis
      using vp ok e
      by (simp add: batchPay_def validate_loop_closed InsufficientFunds_def)
  next
    case False
    then show ?thesis
      using vp assms \<open>\<not> (length ps = 0 \<or> 100 < length ps)\<close>
      by (auto simp: batchPay_def validate_loop_closed precheck_def split: if_splits)
  qed
qed


subsection \<open>The call\<close>

lemma credited_balance:
  "unat (msg_value ctx) \<le> balance s (msg_sender ctx) \<Longrightarrow>
     balance (credited ctx s) a + (if a = msg_sender ctx then unat (msg_value ctx) else 0)
       = balance s a + (if a = this_address ctx then unat (msg_value ctx) else 0)"
  by (simp add: credited_def move_def Let_def)

lemma invoke_BatchPay:
  "invoke env ctx (BatchPay ps) s =
     (if balance s (msg_sender ctx) < unat (msg_value ctx) then (Inl OutOfFunds, s)
      else (case batchPay env ctx ps (credited ctx s) of
              (Inl e, s') \<Rightarrow> (Inl e, s)
            | (Inr rs, s') \<Rightarrow> (Inr (Results rs), s')))"
  by (simp add: invoke_def dispatch_def credited_def Let_def split: prod.split sum.split)

lemma failure_cases:
  "failure env ctx ps s = Some e \<Longrightarrow> e = Overflow \<or> e = RefundFailed \<or> e = ExcessRefundFailed"
  by (auto simp: failure_def split: if_splits)

lemma invoke_valid:
  assumes pre: "precheck ps (msg_value ctx) = None"
    and funds: "unat (msg_value ctx) \<le> balance s (msg_sender ctx)"
  shows "failure env ctx ps s = Some e \<Longrightarrow> invoke env ctx (BatchPay ps) s = (Inl e, s)"
    and "failure env ctx ps s = None \<Longrightarrow>
           fst (invoke env ctx (BatchPay ps) s)
             = Inr (Results (map (result_at env ps) [0..<length ps]))
           \<and> settled env ctx ps s (snd (invoke env ctx (BatchPay ps) s))"
proof -
  define P where "P = paid env ps [0..<length ps]"
  define V where "V = unat (msg_value ctx)"
  define s0 where "s0 = credited ctx s"
  obtain tr where vp: "validPayments ps = Inr ()"
    and vl: "validate_loop ps 0 0 = Inr tr" and le: "tr \<le> msg_value ctx"
    using pre by (auto simp: precheck_None)
  have T: "unat tr = sum_amounts ps"
    using vl by (simp add: validate_loop_Inr)
  have TV: "sum_amounts ps \<le> V"
    using le T by (simp add: word_le_unat V_def)
  have b0: "balance s0 a + (if a = msg_sender ctx then V else 0)
              = balance s a + (if a = this_address ctx then V else 0)" for a
    unfolding s0_def V_def using funds by (rule credited_balance)
  have funds0: "unat (msg_value ctx) \<le> balance s0 (this_address ctx)"
    using b0 [of "this_address ctx"] funds by (simp add: V_def split: if_splits)
  have other0: "totalPaymentsProcessed s0 = totalPaymentsProcessed s"
    "totalVolumeProcessed s0 = totalVolumeProcessed s" "events s0 = events s"
    by (simp_all add: s0_def credited_def)
  obtain f s2 where
    post: "pay_post env ctx ps 0 (frame0 (length ps)) (started ctx ps tr s0) f s2"
    and body: "batchPay env ctx ps s0 =
        (if \<not> unat (totalPaymentsProcessed s0) + unat (successCount f) < 2 ^ 256
           then (Inl Overflow, s2)
         else if \<not> unat (totalVolumeProcessed s0) + unat (totalProcessed f) < 2 ^ 256
           then (Inl Overflow, s2\<lparr>totalPaymentsProcessed := totalPaymentsProcessed s0 + successCount f\<rparr>)
         else if totalProcessed f < tr \<and> \<not> fst (env RefundCall)
           then (Inl RefundFailed, counted ctx f s2)
         else if tr < msg_value ctx \<and> \<not> fst (env ExcessRefundCall)
           then (Inl ExcessRefundFailed, refunded env ctx tr (totalProcessed f) (counted ctx f s2))
         else (Inr (results f),
               refunded env ctx (msg_value ctx) tr
                 (refunded env ctx tr (totalProcessed f) (counted ctx f s2))))"
    using batchPay_valid [OF vp vl le funds0, of env] by blast
  have sc: "unat (successCount f) = n_ok env ps"
    and fc: "unat (failureCount f) = n_failed env ps"
    and tp: "unat (totalProcessed f) = P"
    and rs: "results f = map (result_at env ps) [0..<length ps]"
    and ev: "events s2 = events s @ [BatchPaymentInitiated (msg_sender ctx) (of_nat (length ps))
                tr (block_timestamp ctx)] @ map (event_at env ctx ps) [0..<length ps]"
    and st: "totalPaymentsProcessed s2 = totalPaymentsProcessed s"
      "totalVolumeProcessed s2 = totalVolumeProcessed s"
    using post
    by (simp_all add: pay_post_def frame0_def started_def emit_def n_ok_def n_failed_def P_def other0)
  have c1: "totalProcessed f < tr \<longleftrightarrow> P < sum_amounts ps"
    by (simp add: word_less_unat tp T)
  have c2: "tr < msg_value ctx \<longleftrightarrow> sum_amounts ps < V"
    by (simp add: word_less_unat T V_def)
  have inv: "invoke env ctx (BatchPay ps) s =
      (case batchPay env ctx ps s0 of
         (Inl e, s') \<Rightarrow> (Inl e, s)
       | (Inr rs, s') \<Rightarrow> (Inr (Results rs), s'))"
    using funds by (simp add: invoke_BatchPay s0_def not_less)
  show "invoke env ctx (BatchPay ps) s = (Inl e, s)" if "failure env ctx ps s = Some e"
    using that unfolding inv body
    by (auto simp: failure_def other0 sc tp c1 c2 P_def V_def split: if_splits)
  show "fst (invoke env ctx (BatchPay ps) s)
             = Inr (Results (map (result_at env ps) [0..<length ps]))
           \<and> settled env ctx ps s (snd (invoke env ctx (BatchPay ps) s))"
    if none: "failure env ctx ps s = None"
  proof -
    define s5 where "s5 = counted ctx f s2"
    define s6 where "s6 = refunded env ctx tr (totalProcessed f) s5"
    define s7 where "s7 = refunded env ctx (msg_value ctx) tr s6"
    have fit: "unat (totalPaymentsProcessed s) + n_ok env ps < 2 ^ 256"
      "unat (totalVolumeProcessed s) + P < 2 ^ 256"
      using none by (simp_all add: failure_def P_def split: if_splits)
    have res: "invoke env ctx (BatchPay ps) s = (Inr (Results (results f)), s7)"
      using none unfolding inv body
      by (auto simp: failure_def other0 sc tp c1 c2 P_def V_def s5_def s6_def s7_def split: if_splits)
    have "paid env ps [0..<length ps] \<le> sum_amounts (drop 0 ps)"
      by (rule paid_le_sum_amounts) simp
    then have PT: "P \<le> sum_amounts ps"
      by (simp add: P_def)
    have tp_le: "totalProcessed f \<le> tr"
      using PT by (simp add: word_le_unat tp T)
    have b2: "balance s2 a + (if a = this_address ctx then P else 0)
                = balance s0 a + paid_to env ps a [0..<length ps]" for a
      using pay_post_balance [OF post, of a]
      by (simp add: P_def started_def emit_def split: if_splits)
    have b5: "balance s5 = balance s2"
      by (simp add: s5_def counted_def emit_def)
    have "sum_amounts ps - P \<le> balance s5 (this_address ctx)"
      using b2 [of "this_address ctx"] funds0 TV PT by (simp add: b5 V_def)
    then have r6: "unat tr - unat (totalProcessed f) \<le> balance s5 (this_address ctx)"
      by (simp add: tp T)
    have b6: "balance s6 a + (if a = this_address ctx then sum_amounts ps - P else 0)
                = balance s5 a + (if a = msg_sender ctx then sum_amounts ps - P else 0)" for a
      using refunded_balance [OF tp_le r6, of env a] by (simp only: s6_def tp T)
    have "V - sum_amounts ps \<le> balance s6 (this_address ctx)"
      using b6 [of "this_address ctx"] b2 [of "this_address ctx"] funds0 TV PT
      by (simp add: b5 V_def split: if_splits)
    then have r7: "unat (msg_value ctx) - unat tr \<le> balance s6 (this_address ctx)"
      by (simp add: T V_def)
    have b7: "balance s7 a + (if a = this_address ctx then V - sum_amounts ps else 0)
                = balance s6 a + (if a = msg_sender ctx then V - sum_amounts ps else 0)" for a
      using refunded_balance [OF le r7, of env a] by (simp only: s7_def T V_def)
    have bal: "balance s7 a + (if a = msg_sender ctx then P else 0)
                 = balance s a + paid_to env ps a [0..<length ps]" for a
      using b0 [of a] b2 [of a] b6 [of a] b7 [of a] TV PT
      by (simp add: b5 split: if_splits)
    have stats: "totalPaymentsProcessed s7 = totalPaymentsProcessed s + successCount f"
      "totalVolumeProcessed s7 = totalVolumeProcessed s + totalProcessed f"
      by (simp_all add: s7_def s6_def s5_def refunded_other counted_def emit_def st)
    have u1: "unat (totalPaymentsProcessed s7) = unat (totalPaymentsProcessed s) + n_ok env ps"
      using fit(1) by (simp add: stats unat_add_fit sc)
    have u2: "unat (totalVolumeProcessed s7) = unat (totalVolumeProcessed s) + P"
      using fit(2) by (simp add: stats unat_add_fit tp)
    have w: "successCount f = of_nat (n_ok env ps)" "failureCount f = of_nat (n_failed env ps)"
      "totalProcessed f = of_nat P" "tr = of_nat (sum_amounts ps)"
      by (simp_all flip: sc fc tp T)
    have ev7: "events s7 = events s
           @ [BatchPaymentInitiated (msg_sender ctx) (of_nat (length ps))
                (of_nat (sum_amounts ps)) (block_timestamp ctx)]
           @ map (event_at env ctx ps) [0..<length ps]
           @ [BatchPaymentCompleted (msg_sender ctx) (of_nat (n_ok env ps))
                (of_nat (n_failed env ps)) (of_nat P)]"
      by (simp add: s7_def s6_def s5_def refunded_other counted_def emit_def ev w)
    have "settled env ctx ps s s7"
      unfolding settled_def
    proof (intro conjI allI)
      fix a
      show "balance s7 a + (if a = msg_sender ctx then paid env ps [0..<length ps] else 0)
              = balance s a + paid_to env ps a [0..<length ps]"
        using bal [of a] by (simp only: P_def)
    qed (simp_all only: u1 u2 ev7 P_def)
    then show ?thesis
      by (simp add: res rs)
  qed
qed

lemma invoke_invalid:
  assumes "precheck ps (msg_value ctx) = Some e"
    and "unat (msg_value ctx) \<le> balance s (msg_sender ctx)"
  shows "invoke env ctx (BatchPay ps) s = (Inl e, s)"
  using assms by (simp add: invoke_BatchPay batchPay_precheck_Some not_less)

lemma invoke_completed:
  assumes "fst (invoke env ctx (BatchPay ps) s) = Inr r"
  shows "precheck ps (msg_value ctx) = None"
    and "unat (msg_value ctx) \<le> balance s (msg_sender ctx)"
    and "failure env ctx ps s = None"
    and "r = Results (map (result_at env ps) [0..<length ps])"
    and "settled env ctx ps s (snd (invoke env ctx (BatchPay ps) s))"
proof -
  show funds: "unat (msg_value ctx) \<le> balance s (msg_sender ctx)"
    using assms by (simp add: invoke_BatchPay split: if_splits)
  show pre: "precheck ps (msg_value ctx) = None"
  proof (cases "precheck ps (msg_value ctx)")
    case (Some e)
    then show ?thesis
      using invoke_invalid [OF Some funds, of env] assms by simp
  qed simp
  show fail: "failure env ctx ps s = None"
  proof (cases "failure env ctx ps s")
    case (Some e)
    then show ?thesis
      using invoke_valid(1) [OF pre funds Some] assms by simp
  qed simp
  show "r = Results (map (result_at env ps) [0..<length ps])"
    and "settled env ctx ps s (snd (invoke env ctx (BatchPay ps) s))"
    using invoke_valid(2) [OF pre funds fail] assms by simp_all
qed

lemma invoke_failed_state:
  "fst (invoke env ctx e s) = Inl err \<Longrightarrow> snd (invoke env ctx e s) = s"
  by (auto simp: invoke_def split: if_splits prod.splits sum.splits)

lemma dispatch_other:
  "(\<And>ps. e \<noteq> BatchPay ps) \<Longrightarrow> snd (dispatch env ctx e s) = s"
  by (cases e) (auto simp: dispatch_def nonpayable_def)

lemma invoke_other:
  assumes "\<And>ps. e \<noteq> BatchPay ps"
  shows "snd (invoke env ctx e s) = s"
proof (cases "fst (invoke env ctx e s)")
  case (Inl err)
  then show ?thesis by (rule invoke_failed_state)
next
  case (Inr r)
  then have "snd (invoke env ctx e s) = snd (dispatch env ctx e (credited ctx s))"
    by (auto simp: invoke_def split: if_splits prod.splits sum.splits)
  moreover have "fst (dispatch env ctx e (credited ctx s)) = Inr r"
    using Inr by (auto simp: invoke_def split: if_splits prod.splits sum.splits)
  ultimately show ?thesis
    using assms dispatch_other [of e env ctx "credited ctx s"]
    by (cases e) (auto simp: dispatch_def nonpayable_def credited_def move_def Let_def split: if_splits)
qed

lemma invoke_validation_error:
  assumes "unat (msg_value ctx) \<le> balance s (msg_sender ctx)"
    and "e = EmptyBatch \<or> e = BatchTooLarge \<or> e = InvalidRecipient \<or> e = AmountTooSmall
         \<or> e = InsufficientFunds"
  shows "fst (invoke env ctx (BatchPay ps) s) = Inl e \<longleftrightarrow> precheck ps (msg_value ctx) = Some e"
proof (cases "precheck ps (msg_value ctx)")
  case (Some e')
  then show ?thesis
    using invoke_invalid [OF Some assms(1), of env] by auto
next
  case None
  show ?thesis
  proof (cases "failure env ctx ps s")
    case (Some e')
    then have "fst (invoke env ctx (BatchPay ps) s) = Inl e'"
      using invoke_valid(1) [OF None assms(1) Some] by simp
    moreover have "e' \<noteq> e"
      using failure_cases [OF Some] assms(2) errors_distinct by auto
    ultimately show ?thesis
      using None by simp
  next
    case n: None
    then show ?thesis
      using invoke_valid(2) [OF None assms(1) n] None by simp
  qed
qed

lemma batchPay_validation_error_state:
  assumes "unat (msg_value ctx) \<le> balance s (msg_sender ctx)"
    and "e = EmptyBatch \<or> e = BatchTooLarge \<or> e = InvalidRecipient \<or> e = AmountTooSmall
         \<or> e = InsufficientFunds"
    and "fst (invoke env ctx (BatchPay ps) s) = Inl e"
  shows "batchPay env ctx ps (credited ctx s) = (Inl e, credited ctx s)"
proof -
  have "precheck ps (msg_value ctx) = Some e"
    using invoke_validation_error [OF assms(1,2)] assms(3) by simp
  then show ?thesis
    by (rule batchPay_precheck_Some)
qed

lemma settled_stats:
  assumes "settled env ctx ps s s'"
  shows "unat (totalPaymentsProcessed s') = unat (totalPaymentsProcessed s) + n_ok env ps"
    and "unat (totalVolumeProcessed s') = unat (totalVolumeProcessed s) + paid env ps [0..<length ps]"
  using assms by (simp_all add: settled_def)



subsection \<open>Running the concrete calls\<close>

text \<open>
  The definitions to unfold when a call is evaluated on concrete data.
\<close>

lemmas run_defs =
  invoke_def dispatch_def nonpayable_def batchPay_def validPayments_def MAX_RECIPIENTS_def
  MIN_AMOUNT_def checked_add_def checked_sub_def reconcile_def call_value_def move_def emit_def
  credited_def frame0_def estimateBatchCost_def getStats_def Let_def
  validate_loop.simps pay_loop.simps estimate_loop.simps

lemmas demo_defs =
  env_second_fails_def demo_ctx_def demo_batch_def demo_state_def demo_results_def




subsection \<open>The second loop against callees that act\<close>

text \<open>
  The loop keeps \<open>tallied\<close> from one iteration to the next whatever the callee does, and
  its checked additions cannot fail for a batch that passed validation. So it runs to
  its end unless a callee uses up the gas.
\<close>

declare pay_loop_re.simps [simp del]

lemma delivered_snoc:
  "delivered (rs @ [r]) = delivered rs + (if success r then unat (PaymentResult.amount r) else 0)"
  by (simp add: delivered_def)

lemma take_Suc_update:
  "i < length xs \<Longrightarrow> take (Suc i) (xs[i := v]) = take i xs @ [v]"
  by (simp add: take_Suc_conv_app_nth)

lemma delivered_le_sum:
  assumes "\<forall>j<i. PaymentResult.amount (rs ! j) = Payment.amount (ps ! j)"
    and "i \<le> length rs" and "i \<le> length ps"
  shows "delivered (take i rs) \<le> sum_amounts (take i ps)"
  using assms
proof (induction i)
  case 0
  then show ?case by (simp add: delivered_def sum_amounts_def)
next
  case (Suc i)
  then have "delivered (take i rs) \<le> sum_amounts (take i ps)" by simp
  then show ?case
    using Suc.prems
    by (simp add: take_Suc_conv_app_nth delivered_snoc sum_amounts_def)
qed

lemma delivered_all_success:
  assumes "\<forall>j<i. PaymentResult.amount (rs ! j) = Payment.amount (ps ! j) \<and> success (rs ! j)"
    and "i \<le> length rs" and "i \<le> length ps"
  shows "delivered (take i rs) = sum_amounts (take i ps)"
  using assms
proof (induction i)
  case 0
  then show ?case by (simp add: delivered_def sum_amounts_def)
next
  case (Suc i)
  then have "delivered (take i rs) = sum_amounts (take i ps)" by simp
  then show ?case
    using Suc.prems
    by (simp add: take_Suc_conv_app_nth delivered_snoc sum_amounts_def)
qed

lemma sum_amounts_take_Suc:
  "i < length ps \<Longrightarrow> sum_amounts (take i ps) + unat (Payment.amount (ps ! i)) \<le> sum_amounts ps"
proof -
  assume i: "i < length ps"
  have "sum_amounts (take (Suc i) ps) + sum_amounts (drop (Suc i) ps) = sum_amounts ps"
    unfolding sum_amounts_def by (metis append_take_drop_id map_append sum_list_append)
  then show ?thesis
    using i by (simp add: take_Suc_conv_app_nth sum_amounts_def)
qed

lemma tallied_bounds:
  assumes "tallied w p ps i f" and "i \<le> length ps"
  shows "unat (successCount f) \<le> i" and "unat (failureCount f) \<le> i"
    and "unat (totalProcessed f) \<le> sum_amounts (take i ps)"
proof -
  have len: "length (results f) = length ps"
    using assms(1) by (simp add: tallied_def)
  have "length (filter success (take i (results f))) \<le> length (take i (results f))"
    by (rule length_filter_le)
  then show "unat (successCount f) \<le> i"
    using assms by (simp add: tallied_def)
  have "length (filter (\<lambda>r. \<not> success r) (take i (results f))) \<le> length (take i (results f))"
    by (rule length_filter_le)
  then show "unat (failureCount f) \<le> i"
    using assms by (simp add: tallied_def)
  have "delivered (take i (results f)) \<le> sum_amounts (take i ps)"
    using assms len by (intro delivered_le_sum) (simp_all add: tallied_def)
  then show "unat (totalProcessed f) \<le> sum_amounts (take i ps)"
    using assms by (simp add: tallied_def)
qed

lemma tallied_frame0: "tallied w p ps 0 (frame0 (length ps))"
  by (simp add: tallied_def frame0_def delivered_def)

lemma tallied_success:
  assumes t: "tallied w p ps i f" and i: "i < length ps"
    and acc: "snd (w p (PaymentCall i)) = Accept"
    and sc: "unat (successCount f) + 1 < 2 ^ 256"
    and tp: "unat (totalProcessed f) + unat (Payment.amount (ps ! i)) < 2 ^ 256"
  shows "tallied w p ps (Suc i)
           (f\<lparr>results := (results f)[i := \<lparr>success = True, recipient = Payment.recipient (ps ! i),
                                           amount = Payment.amount (ps ! i)\<rparr>],
              successCount := successCount f + 1,
              totalProcessed := totalProcessed f + Payment.amount (ps ! i)\<rparr>)"
proof -
  have len: "length (results f) = length ps" and i': "i < length (results f)"
    using t i by (simp_all add: tallied_def)
  have one: "unat (successCount f + 1) = unat (successCount f) + 1"
    using sc unat_add_fit [of "successCount f" 1] by simp
  have two: "unat (totalProcessed f + Payment.amount (ps ! i))
               = unat (totalProcessed f) + unat (Payment.amount (ps ! i))"
    using tp by (rule unat_add_fit)
  show ?thesis
    using t i i' acc
    by (auto simp: tallied_def take_Suc_update delivered_snoc one two nth_list_update less_Suc_eq)
qed

lemma tallied_failure:
  assumes t: "tallied w p ps i f" and i: "i < length ps"
    and fc: "unat (failureCount f) + 1 < 2 ^ 256"
  shows "tallied w p ps (Suc i)
           (f\<lparr>results := (results f)[i := \<lparr>success = False, recipient = Payment.recipient (ps ! i),
                                           amount = Payment.amount (ps ! i)\<rparr>],
              failureCount := failureCount f + 1\<rparr>)"
proof -
  have len: "length (results f) = length ps" and i': "i < length (results f)"
    using t i by (simp_all add: tallied_def)
  have one: "unat (failureCount f + 1) = unat (failureCount f) + 1"
    using fc unat_add_fit [of "failureCount f" 1] by simp
  show ?thesis
    using t i i'
    by (auto simp: tallied_def take_Suc_update delivered_snoc one nth_list_update less_Suc_eq)
qed

lemma call_re_cases:
  "(call_re nested w p site ctx dst v s = (Inl OutOfGas, s) \<and> snd (w p site) = Exhaust)
   \<or> (\<exists>r s1. call_re nested w p site ctx dst v s = (Inr (False, r), s1))
   \<or> (\<exists>r s1. call_re nested w p site ctx dst v s = (Inr (True, r), s1)
        \<and> snd (w p site) = Accept)"
  by (cases "snd (w p site)") (simp_all add: call_re_def Let_def)

lemma pay_loop_re_tallied:
  assumes "tallied w p ps i f" and "i \<le> length ps"
    and "sum_amounts ps < 2 ^ 256" and "length ps < 2 ^ 256 - 1"
  shows "(fst (pay_loop_re nested w p ctx ps i f s) = Inl OutOfGas
            \<and> (\<exists>j<length ps. i \<le> j \<and> snd (w p (PaymentCall j)) = Exhaust))
         \<or> (\<exists>f' s'. pay_loop_re nested w p ctx ps i f s = (Inr f', s')
               \<and> tallied w p ps (length ps) f')"
  using assms
proof (induction "length ps - i" arbitrary: i f s)
  case 0
  then have "i = length ps" by simp
  then show ?case
    using "0.prems"(1) by (subst pay_loop_re.simps) simp
next
  case (Suc k)
  then have i: "i < length ps" by simp
  have k: "k = length ps - Suc i" using Suc.hyps(2) by simp
  have b: "unat (successCount f) \<le> i" "unat (failureCount f) \<le> i"
    "unat (totalProcessed f) \<le> sum_amounts (take i ps)"
    using tallied_bounds [OF Suc.prems(1,2)] by simp_all
  have sc: "unat (successCount f) + 1 < 2 ^ 256"
    using b(1) i Suc.prems(4) by simp
  have fc: "unat (failureCount f) + 1 < 2 ^ 256"
    using b(2) i Suc.prems(4) by simp
  have tp: "unat (totalProcessed f) + unat (Payment.amount (ps ! i)) < 2 ^ 256"
    using b(3) sum_amounts_take_Suc [OF i] Suc.prems(3) by simp
  let ?c = "call_re nested w p (PaymentCall i) ctx (Payment.recipient (ps ! i))
              (Payment.amount (ps ! i)) s"
  consider (gas) "?c = (Inl OutOfGas, s)" "snd (w p (PaymentCall i)) = Exhaust"
    | (no) r s1 where "?c = (Inr (False, r), s1)"
    | (yes) r s1 where "?c = (Inr (True, r), s1)" "snd (w p (PaymentCall i)) = Accept"
    using call_re_cases [of nested w p "PaymentCall i" ctx "Payment.recipient (ps ! i)"
            "Payment.amount (ps ! i)" s] by blast
  then show ?case
  proof cases
    case gas
    then show ?thesis
      using i by (subst pay_loop_re.simps) (auto simp: Let_def)
  next
    case no
    let ?f = "f\<lparr>results := (results f)[i := \<lparr>success = False,
                   recipient = Payment.recipient (ps ! i), amount = Payment.amount (ps ! i)\<rparr>],
                 failureCount := failureCount f + 1\<rparr>"
    let ?s = "emit (PaymentFailed (msg_sender ctx) (Payment.recipient (ps ! i))
                      (Payment.amount (ps ! i)) (of_nat i) ''Transfer failed'') s1"
    have step: "pay_loop_re nested w p ctx ps i f s = pay_loop_re nested w p ctx ps (Suc i) ?f ?s"
      using i no fc by (subst pay_loop_re.simps) (simp add: Let_def checked_add_def)
    have t: "tallied w p ps (Suc i) ?f"
      using Suc.prems(1) i fc by (rule tallied_failure)
    have "(fst (pay_loop_re nested w p ctx ps (Suc i) ?f ?s) = Inl OutOfGas
            \<and> (\<exists>j<length ps. Suc i \<le> j \<and> snd (w p (PaymentCall j)) = Exhaust))
         \<or> (\<exists>f' s'. pay_loop_re nested w p ctx ps (Suc i) ?f ?s = (Inr f', s')
               \<and> tallied w p ps (length ps) f')"
      using i by (intro Suc.hyps(1) [OF k t _ Suc.prems(3,4)]) simp
    then show ?thesis
      unfolding step by (meson Suc_leD)
  next
    case yes
    let ?f = "f\<lparr>results := (results f)[i := \<lparr>success = True,
                   recipient = Payment.recipient (ps ! i), amount = Payment.amount (ps ! i)\<rparr>],
                 successCount := successCount f + 1,
                 totalProcessed := totalProcessed f + Payment.amount (ps ! i)\<rparr>"
    let ?s = "emit (PaymentSuccess (msg_sender ctx) (Payment.recipient (ps ! i))
                      (Payment.amount (ps ! i)) (of_nat i)) s1"
    have step: "pay_loop_re nested w p ctx ps i f s = pay_loop_re nested w p ctx ps (Suc i) ?f ?s"
      using i yes sc tp by (subst pay_loop_re.simps) (simp add: Let_def checked_add_def)
    have t: "tallied w p ps (Suc i) ?f"
      using Suc.prems(1) i yes(2) sc tp by (rule tallied_success)
    have "(fst (pay_loop_re nested w p ctx ps (Suc i) ?f ?s) = Inl OutOfGas
            \<and> (\<exists>j<length ps. Suc i \<le> j \<and> snd (w p (PaymentCall j)) = Exhaust))
         \<or> (\<exists>f' s'. pay_loop_re nested w p ctx ps (Suc i) ?f ?s = (Inr f', s')
               \<and> tallied w p ps (length ps) f')"
      using i by (intro Suc.hyps(1) [OF k t _ Suc.prems(3,4)]) simp
    then show ?thesis
      unfolding step by (meson Suc_leD)
  qed
qed

subsection \<open>What the external calls can do to the state\<close>

text \<open>
  The loop and the reconciliation change the state only through their external calls
  and the events they emit. A relation between states that every external call and
  every event respects, and that is reflexive and transitive, therefore holds between
  the states before and after them.
\<close>

lemma pay_loop_re_step:
  assumes i: "i < length ps"
  shows "snd (pay_loop_re nested w p ctx ps i f s)
           = snd (call_re nested w p (PaymentCall i) ctx (Payment.recipient (ps ! i))
                    (Payment.amount (ps ! i)) s)
         \<or> (\<exists>f' ev. pay_loop_re nested w p ctx ps i f s
               = pay_loop_re nested w p ctx ps (Suc i) f'
                   (emit ev (snd (call_re nested w p (PaymentCall i) ctx
                      (Payment.recipient (ps ! i)) (Payment.amount (ps ! i)) s))))"
proof -
  let ?c = "call_re nested w p (PaymentCall i) ctx (Payment.recipient (ps ! i))
              (Payment.amount (ps ! i)) s"
  let ?f1 = "\<lambda>b. f\<lparr>results := (results f)[i := \<lparr>success = b,
                 recipient = Payment.recipient (ps ! i), amount = Payment.amount (ps ! i)\<rparr>]\<rparr>"
  obtain x s1 where c: "?c = (x, s1)" by (cases ?c)
  show ?thesis
  proof (cases x)
    case (Inl st)
    then have "pay_loop_re nested w p ctx ps i f s = (Inl st, s1)"
      using i c by (subst pay_loop_re.simps) (simp add: Let_def)
    then show ?thesis using c by simp
  next
    case (Inr ret)
    show ?thesis
    proof (cases "fst ret")
      case True
      show ?thesis
      proof (cases "checked_add (successCount f) 1")
        case (Inl e)
        then have "pay_loop_re nested w p ctx ps i f s = (Inl (Revert e), s1)"
          using i c Inr True by (subst pay_loop_re.simps) (simp add: Let_def)
        then show ?thesis using c by simp
      next
        case sc: (Inr sc)
        show ?thesis
        proof (cases "checked_add (totalProcessed f) (Payment.amount (ps ! i))")
          case (Inl e)
          then have "pay_loop_re nested w p ctx ps i f s = (Inl (Revert e), s1)"
            using i c Inr True sc by (subst pay_loop_re.simps) (simp add: Let_def)
          then show ?thesis using c by simp
        next
          case tp: (Inr tp)
          have "pay_loop_re nested w p ctx ps i f s
                  = pay_loop_re nested w p ctx ps (Suc i)
                      (?f1 True\<lparr>successCount := sc, totalProcessed := tp\<rparr>)
                      (emit (PaymentSuccess (msg_sender ctx) (Payment.recipient (ps ! i))
                               (Payment.amount (ps ! i)) (of_nat i)) s1)"
            using i c Inr True sc tp by (subst pay_loop_re.simps) (simp add: Let_def)
          then show ?thesis using c by auto
        qed
      qed
    next
      case False
      show ?thesis
      proof (cases "checked_add (failureCount f) 1")
        case (Inl e)
        then have "pay_loop_re nested w p ctx ps i f s = (Inl (Revert e), s1)"
          using i c Inr False by (subst pay_loop_re.simps) (simp add: Let_def)
        then show ?thesis using c by simp
      next
        case fc: (Inr fc)
        have "pay_loop_re nested w p ctx ps i f s
                = pay_loop_re nested w p ctx ps (Suc i) (?f1 False\<lparr>failureCount := fc\<rparr>)
                    (emit (PaymentFailed (msg_sender ctx) (Payment.recipient (ps ! i))
                             (Payment.amount (ps ! i)) (of_nat i) ''Transfer failed'') s1)"
          using i c Inr False fc by (subst pay_loop_re.simps) (simp add: Let_def)
        then show ?thesis using c by auto
      qed
    qed
  qed
qed

lemma pay_loop_re_invariant:
  assumes call: "\<And>j dst v s. R s (snd (call_re nested w p (PaymentCall j) ctx dst v s))"
    and ev: "\<And>e s. R s (emit e s)"
    and refl: "\<And>s. R s s"
    and trans: "\<And>a b c. R a b \<Longrightarrow> R b c \<Longrightarrow> R a c"
  shows "R s (snd (pay_loop_re nested w p ctx ps i f s))"
proof (induction "length ps - i" arbitrary: i f s)
  case 0
  then show ?case
    by (subst pay_loop_re.simps) (simp add: refl)
next
  case (Suc k)
  then have i: "i < length ps" and k: "k = length ps - Suc i" by simp_all
  let ?s1 = "snd (call_re nested w p (PaymentCall i) ctx (Payment.recipient (ps ! i))
                    (Payment.amount (ps ! i)) s)"
  have c: "R s ?s1" by (rule call)
  from pay_loop_re_step [OF i, of nested w p ctx f s]
  show ?case
  proof
    assume "snd (pay_loop_re nested w p ctx ps i f s) = ?s1"
    then show ?thesis using c by simp
  next
    assume "\<exists>f' e. pay_loop_re nested w p ctx ps i f s
               = pay_loop_re nested w p ctx ps (Suc i) f' (emit e ?s1)"
    then obtain f' e where st: "pay_loop_re nested w p ctx ps i f s
               = pay_loop_re nested w p ctx ps (Suc i) f' (emit e ?s1)"
      by blast
    have "R (emit e ?s1) (snd (pay_loop_re nested w p ctx ps (Suc i) f' (emit e ?s1)))"
      using k by (rule Suc.hyps(1))
    then show ?thesis
      unfolding st using c ev [of ?s1 e] trans by blast
  qed
qed

lemma refund_re_invariant:
  assumes call: "\<And>dst v s. R s (snd (call_re nested w p site ctx dst v s))"
    and refl: "\<And>s. R s s"
  shows "R s (snd (refund_re nested w p site ctx v s))"
proof (cases "v > 0")
  case True
  then have "snd (refund_re nested w p site ctx v s)
               = snd (call_re nested w p site ctx (msg_sender ctx) v s)"
    by (simp add: refund_re_def split: prod.splits sum.splits)
  then show ?thesis using call by simp
next
  case False
  then show ?thesis by (simp add: refund_re_def refl)
qed

lemma reconcile_re_step:
  "snd (reconcile_re nested w p ctx required processed s) = s
   \<or> snd (reconcile_re nested w p ctx required processed s)
       = snd (refund_re nested w p RefundCall ctx (required - processed) s)
   \<or> snd (reconcile_re nested w p ctx required processed s)
       = snd (refund_re nested w p ExcessRefundCall ctx (msg_value ctx - required)
                (snd (refund_re nested w p RefundCall ctx (required - processed) s)))"
  by (auto simp: reconcile_re_def checked_sub_def split: prod.splits sum.splits)

lemma reconcile_re_invariant:
  assumes call: "\<And>site dst v s. R s (snd (call_re nested w p site ctx dst v s))"
    and refl: "\<And>s. R s s"
    and trans: "\<And>a b c. R a b \<Longrightarrow> R b c \<Longrightarrow> R a c"
  shows "R s (snd (reconcile_re nested w p ctx required processed s))"
proof -
  let ?s1 = "snd (refund_re nested w p RefundCall ctx (required - processed) s)"
  let ?s2 = "snd (refund_re nested w p ExcessRefundCall ctx (msg_value ctx - required) ?s1)"
  have r: "R s (snd (refund_re nested w p site ctx v s))" for site v s
    using call refl by (rule refund_re_invariant)
  have one: "R s ?s1" by (rule r)
  have "R ?s1 ?s2" by (rule r)
  with one have two: "R s ?s2" by (rule trans)
  from reconcile_re_step [of nested w p ctx required processed s]
  consider "snd (reconcile_re nested w p ctx required processed s) = s"
    | "snd (reconcile_re nested w p ctx required processed s) = ?s1"
    | "snd (reconcile_re nested w p ctx required processed s) = ?s2"
    by blast
  then show ?thesis
  proof cases
    case 1
    then show ?thesis by (simp add: refl)
  next
    case 2
    then show ?thesis using one by simp
  next
    case 3
    then show ?thesis using two by simp
  qed
qed

text \<open>
  The two relations on the statistics: callees that do not lower the counters give a
  loop and a reconciliation that do not lower them, and callees that do not call the
  contract again leave the counters as they are.
\<close>

lemma stats_le_refl: "stats_le s s"
  by (simp add: stats_le_def)

lemma stats_le_trans: "stats_le a b \<Longrightarrow> stats_le b c \<Longrightarrow> stats_le a c"
  by (auto simp: stats_le_def)

lemma stats_eq_refl: "stats_eq s s"
  by (simp add: stats_eq_def)

lemma stats_eq_trans: "stats_eq a b \<Longrightarrow> stats_eq b c \<Longrightarrow> stats_eq a c"
  by (auto simp: stats_eq_def)

lemma stats_eq_le: "stats_eq a b \<Longrightarrow> stats_le a b"
  by (simp add: stats_eq_def stats_le_def)

lemma run_actions_stats_le:
  assumes "stats_monotone nested"
  shows "stats_le s (run_actions nested p site ctx j acts s)"
proof (induction acts arbitrary: j s)
  case Nil
  show ?case by (simp add: stats_le_refl)
next
  case (Cons a acts)
  show ?case
  proof (cases a)
    case (Move src dst v)
    have "stats_le s (if src \<noteq> this_address ctx \<and> v \<le> balance s src
                      then s\<lparr>balance := move src dst v (balance s)\<rparr> else s)"
      by (simp add: stats_le_def)
    then show ?thesis
      unfolding Move run_actions.simps using Cons.IH stats_le_trans by blast
  next
    case (Reenter a' v e)
    have "stats_le s (if a' \<noteq> this_address ctx
                      then snd (nested (p @ [(site, j)]) (ctx\<lparr>msg_sender := a', msg_value := v\<rparr>) e s)
                      else s)"
      using assms by (simp add: stats_monotone_def stats_le_refl)
    then show ?thesis
      unfolding Reenter run_actions.simps using Cons.IH stats_le_trans by blast
  qed
qed

lemma run_actions_stats_eq:
  assumes "list_all is_Move acts"
  shows "stats_eq s (run_actions nested p site ctx j acts s)"
  using assms
proof (induction acts arbitrary: j s)
  case Nil
  show ?case by (simp add: stats_eq_refl)
next
  case (Cons a acts)
  then obtain src dst v where a: "a = Move src dst v"
    by (cases a) simp_all
  have "stats_eq s (if src \<noteq> this_address ctx \<and> v \<le> balance s src
                    then s\<lparr>balance := move src dst v (balance s)\<rparr> else s)"
    by (simp add: stats_eq_def)
  moreover have "list_all is_Move acts" using Cons.prems by simp
  ultimately show ?case
    unfolding a run_actions.simps using Cons.IH stats_eq_trans by blast
qed

lemma call_re_stats_le:
  assumes "stats_monotone nested"
  shows "stats_le s (snd (call_re nested w p site ctx dst v s))"
proof -
  have "stats_le (s\<lparr>balance := move (this_address ctx) dst (unat v) (balance s)\<rparr>)
          (run_actions nested p site ctx 0 (fst (w p site))
             (s\<lparr>balance := move (this_address ctx) dst (unat v) (balance s)\<rparr>))"
    using assms by (rule run_actions_stats_le)
  then show ?thesis
    by (cases "snd (w p site)") (simp_all add: call_re_def Let_def stats_le_def)
qed

lemma call_re_stats_eq:
  assumes "quiet w p"
  shows "stats_eq s (snd (call_re nested w p site ctx dst v s))"
proof -
  have "list_all is_Move (fst (w p site))"
    using assms by (simp add: quiet_def)
  then have "stats_eq (s\<lparr>balance := move (this_address ctx) dst (unat v) (balance s)\<rparr>)
          (run_actions nested p site ctx 0 (fst (w p site))
             (s\<lparr>balance := move (this_address ctx) dst (unat v) (balance s)\<rparr>))"
    by (rule run_actions_stats_eq)
  then show ?thesis
    by (cases "snd (w p site)") (simp_all add: call_re_def Let_def stats_eq_def)
qed

lemma emit_stats_eq: "stats_eq s (emit e s)"
  by (simp add: stats_eq_def emit_def)

lemma pay_loop_re_stats_le:
  assumes "stats_monotone nested"
  shows "stats_le s (snd (pay_loop_re nested w p ctx ps i f s))"
  by (rule pay_loop_re_invariant)
     (simp_all add: call_re_stats_le [OF assms] stats_le_refl stats_eq_le emit_stats_eq,
      erule (1) stats_le_trans)

lemma pay_loop_re_stats_eq:
  assumes "quiet w p"
  shows "stats_eq s (snd (pay_loop_re nested w p ctx ps i f s))"
  by (rule pay_loop_re_invariant)
     (simp_all add: call_re_stats_eq [OF assms] stats_eq_refl emit_stats_eq,
      erule (1) stats_eq_trans)

lemma reconcile_re_stats_le:
  assumes "stats_monotone nested"
  shows "stats_le s (snd (reconcile_re nested w p ctx required processed s))"
  by (rule reconcile_re_invariant)
     (simp_all add: call_re_stats_le [OF assms] stats_le_refl, erule (1) stats_le_trans)

lemma reconcile_re_stats_eq:
  assumes "quiet w p"
  shows "stats_eq s (snd (reconcile_re nested w p ctx required processed s))"
  by (rule reconcile_re_invariant)
     (simp_all add: call_re_stats_eq [OF assms] stats_eq_refl, erule (1) stats_eq_trans)

subsection \<open>The body of batchPay and the call, with callees that act\<close>

lemma batchPay_re_valid:
  assumes "validPayments ps = Inr ()" and "validate_loop ps 0 0 = Inr tr"
    and "tr \<le> msg_value ctx"
  shows "batchPay_re nested w p ctx ps s =
     (case pay_loop_re nested w p ctx ps 0 (frame0 (length ps)) (started ctx ps tr s) of
        (Inl st, s2) \<Rightarrow> (Inl st, s2)
      | (Inr f, s2) \<Rightarrow>
          if \<not> unat (totalPaymentsProcessed s2) + unat (successCount f) < 2 ^ 256
            then (Inl (Revert Overflow), s2)
          else if \<not> unat (totalVolumeProcessed s2) + unat (totalProcessed f) < 2 ^ 256
            then (Inl (Revert Overflow),
                  s2\<lparr>totalPaymentsProcessed := totalPaymentsProcessed s2 + successCount f\<rparr>)
          else (case reconcile_re nested w p ctx tr (totalProcessed f) (counted ctx f s2) of
                  (Inl st, s6) \<Rightarrow> (Inl st, s6)
                | (Inr u, s6) \<Rightarrow> (Inr (results f), s6)))"
  using assms
  by (simp add: batchPay_re_def started_def counted_def checked_add_def Let_def
           split: prod.split sum.split)

lemma batchPay_re_invalid:
  assumes "precheck ps (msg_value ctx) \<noteq> None"
  shows "\<exists>e. batchPay_re nested w p ctx ps s = (Inl (Revert e), s)"
proof -
  have "validPayments ps \<noteq> Inr () \<or> (\<forall>tr. validate_loop ps 0 0 = Inr tr \<longrightarrow> \<not> tr \<le> msg_value ctx)"
    using assms by (auto simp: precheck_None)
  then show ?thesis
    by (auto simp: batchPay_re_def split: sum.splits)
qed

lemma started_stats_eq: "stats_eq s (started ctx ps tr s)"
  by (simp add: started_def emit_stats_eq)

lemma credited_stats_eq: "stats_eq s (credited ctx s)"
  by (simp add: credited_def stats_eq_def)

lemma counted_stats:
  assumes "unat (totalPaymentsProcessed s) + unat (successCount f) < 2 ^ 256"
    and "unat (totalVolumeProcessed s) + unat (totalProcessed f) < 2 ^ 256"
  shows "unat (totalPaymentsProcessed (counted ctx f s))
           = unat (totalPaymentsProcessed s) + unat (successCount f)"
    and "unat (totalVolumeProcessed (counted ctx f s))
           = unat (totalVolumeProcessed s) + unat (totalProcessed f)"
    and "stats_le s (counted ctx f s)"
  using assms by (simp_all add: counted_def emit_def unat_add_fit stats_le_def word_le_unat)

lemma batchPay_re_stats_le:
  assumes m: "stats_monotone nested"
  shows "stats_le s (snd (batchPay_re nested w p ctx ps s))"
proof (cases "precheck ps (msg_value ctx)")
  case (Some e)
  then show ?thesis
    using batchPay_re_invalid [of ps ctx nested w p s] by (auto simp: stats_le_refl)
next
  case None
  then obtain tr where v: "validPayments ps = Inr ()" "validate_loop ps 0 0 = Inr tr"
    "tr \<le> msg_value ctx"
    by (auto simp: precheck_None)
  let ?s1 = "started ctx ps tr s"
  obtain x s2 where l: "pay_loop_re nested w p ctx ps 0 (frame0 (length ps)) ?s1 = (x, s2)"
    by (cases "pay_loop_re nested w p ctx ps 0 (frame0 (length ps)) ?s1")
  have "stats_le ?s1 (snd (pay_loop_re nested w p ctx ps 0 (frame0 (length ps)) ?s1))"
    using m by (rule pay_loop_re_stats_le)
  then have s2: "stats_le s s2"
    using l stats_le_trans [OF stats_eq_le [OF started_stats_eq]] by simp
  show ?thesis
  proof (cases x)
    case (Inl st)
    then show ?thesis
      using s2 l by (simp add: batchPay_re_valid [OF v])
  next
    case (Inr f)
    show ?thesis
    proof (cases "unat (totalPaymentsProcessed s2) + unat (successCount f) < 2 ^ 256")
      case False
      then show ?thesis
        using s2 l Inr by (simp add: batchPay_re_valid [OF v])
    next
      case one: True
      show ?thesis
      proof (cases "unat (totalVolumeProcessed s2) + unat (totalProcessed f) < 2 ^ 256")
        case False
        have "stats_le s2 (s2\<lparr>totalPaymentsProcessed := totalPaymentsProcessed s2 + successCount f\<rparr>)"
          using one by (simp add: stats_le_def word_le_unat unat_add_fit)
        then have "stats_le s (s2\<lparr>totalPaymentsProcessed := totalPaymentsProcessed s2 + successCount f\<rparr>)"
          using s2 stats_le_trans by blast
        then show ?thesis
          using l Inr one False by (simp add: batchPay_re_valid [OF v])
      next
        case True
        let ?s5 = "counted ctx f s2"
        have "stats_le s2 ?s5"
          using one True by (rule counted_stats(3))
        moreover have "stats_le ?s5 (snd (reconcile_re nested w p ctx tr (totalProcessed f) ?s5))"
          using m by (rule reconcile_re_stats_le)
        ultimately have "stats_le s (snd (reconcile_re nested w p ctx tr (totalProcessed f) ?s5))"
          using s2 stats_le_trans by blast
        then show ?thesis
          using l Inr one True
          by (auto simp: batchPay_re_valid [OF v] split: prod.splits sum.splits)
      qed
    qed
  qed
qed

lemma dispatch_re_other:
  assumes "\<And>ps. e \<noteq> BatchPay ps"
  shows "snd (dispatch_re nested w p ctx e s) = s"
  using assms by (cases e) (auto simp: dispatch_re_def nonpayable_def reverting_def split: sum.splits)

lemma invoke_re_failed_state:
  "fst (invoke_re nested w p ctx e s) = Inl st \<Longrightarrow> snd (invoke_re nested w p ctx e s) = s"
  by (auto simp: invoke_re_def split: if_splits prod.splits sum.splits)

lemma invoke_re_BatchPay:
  "invoke_re nested w p ctx (BatchPay ps) s =
     (if balance s (msg_sender ctx) < unat (msg_value ctx) then (Inl (Revert OutOfFunds), s)
      else (case batchPay_re nested w p ctx ps (credited ctx s) of
              (Inl st, s') \<Rightarrow> (Inl st, s)
            | (Inr rs, s') \<Rightarrow> (Inr (Results rs), s')))"
  by (simp add: invoke_re_def dispatch_re_def split: prod.split sum.split)

lemma invoke_re_other_stats:
  assumes "\<And>ps. e \<noteq> BatchPay ps"
  shows "stats_eq s (snd (invoke_re nested w p ctx e s))"
proof -
  have "snd (invoke_re nested w p ctx e s) = s \<or> snd (invoke_re nested w p ctx e s) = credited ctx s"
    using dispatch_re_other [OF assms, of nested w p ctx "credited ctx s"]
    by (auto simp: invoke_re_def split: prod.splits sum.splits)
  then show ?thesis
    using credited_stats_eq [of s ctx] by (auto simp: stats_eq_refl)
qed

lemma invoke_re_stats_le:
  assumes m: "stats_monotone nested"
  shows "stats_le s (snd (invoke_re nested w p ctx e s))"
proof (cases "\<exists>ps. e = BatchPay ps")
  case False
  then show ?thesis
    using invoke_re_other_stats [of e s nested w p ctx] by (simp add: stats_eq_le)
next
  case True
  then obtain ps where e: "e = BatchPay ps" by blast
  have "stats_le (credited ctx s) (snd (batchPay_re nested w p ctx ps (credited ctx s)))"
    using m by (rule batchPay_re_stats_le)
  then have "stats_le s (snd (batchPay_re nested w p ctx ps (credited ctx s)))"
    using stats_le_trans [OF stats_eq_le [OF credited_stats_eq]] by blast
  then show ?thesis
    unfolding e invoke_re_BatchPay
    by (auto simp: stats_le_refl split: prod.splits sum.splits)
qed

text \<open>
  By induction on the room left on the call stack, no call to the contract lowers a
  counter, however deeply its callees re-enter.
\<close>

lemma contract_stats_monotone: "stats_monotone (contract d w)"
proof (induction d)
  case 0
  show ?case by (simp add: stats_monotone_def stats_le_refl)
next
  case (Suc d)
  then show ?case
    using invoke_re_stats_le [of "contract d w" _ w] by (simp add: stats_monotone_def)
qed

text \<open>
  How the reconciliation and the body can end for a batch that passed validation, and
  what a completed call went through.
\<close>

lemma refund_re_outcome:
  "(fst (refund_re nested w p site ctx v s) = Inl OutOfGas
   \<or> fst (refund_re nested w p site ctx v s) = Inr True
   \<or> fst (refund_re nested w p site ctx v s) = Inr False \<and> 0 < v)"
  using call_re_cases [of nested w p site ctx "msg_sender ctx" v s]
  by (auto simp: refund_re_def)

lemma reconcile_re_outcome:
  assumes "processed \<le> required" and "required \<le> msg_value ctx"
  shows "fst (reconcile_re nested w p ctx required processed s) = Inr ()
       \<or> fst (reconcile_re nested w p ctx required processed s) = Inl OutOfGas
       \<or> fst (reconcile_re nested w p ctx required processed s) = Inl (Revert ExcessRefundFailed)
       \<or> fst (reconcile_re nested w p ctx required processed s) = Inl (Revert RefundFailed)
           \<and> processed < required"
proof -
  let ?r1 = "refund_re nested w p RefundCall ctx (required - processed) s"
  let ?r2 = "refund_re nested w p ExcessRefundCall ctx (msg_value ctx - required) (snd ?r1)"
  have pos: "0 < required - processed \<Longrightarrow> processed < required"
    using assms(1) by (simp add: word_less_unat word_le_unat unat_sub)
  from refund_re_outcome [of nested w p RefundCall ctx "required - processed" s]
  consider "fst ?r1 = Inl OutOfGas" | "fst ?r1 = Inr True"
    | "fst ?r1 = Inr False" "0 < required - processed"
    by blast
  then show ?thesis
  proof cases
    case 1
    then show ?thesis
      using assms by (cases ?r1) (simp add: reconcile_re_def checked_sub_def)
  next
    case 3
    then show ?thesis
      using assms pos
      by (cases ?r1) (simp add: reconcile_re_def checked_sub_def RefundFailed_def)
  next
    case 2
    from refund_re_outcome [of nested w p ExcessRefundCall ctx "msg_value ctx - required" "snd ?r1"]
    show ?thesis
      using assms 2
      by (cases ?r1; cases ?r2)
         (auto simp: reconcile_re_def checked_sub_def ExcessRefundFailed_def)
  qed
qed

lemma batchPay_re_outcome:
  assumes v: "validPayments ps = Inr ()" "validate_loop ps 0 0 = Inr tr" "tr \<le> msg_value ctx"
  shows "(fst (batchPay_re nested w p ctx ps s) = Inl OutOfGas
            \<and> (\<exists>j<length ps. snd (w p (PaymentCall j)) = Exhaust))
       \<or> (\<exists>f s2. pay_loop_re nested w p ctx ps 0 (frame0 (length ps)) (started ctx ps tr s)
                    = (Inr f, s2)
            \<and> tallied w p ps (length ps) f
            \<and> (fst (batchPay_re nested w p ctx ps s) = Inr (results f)
               \<or> fst (batchPay_re nested w p ctx ps s) = Inl OutOfGas
               \<or> fst (batchPay_re nested w p ctx ps s) = Inl (Revert Overflow)
               \<or> fst (batchPay_re nested w p ctx ps s) = Inl (Revert ExcessRefundFailed)
               \<or> fst (batchPay_re nested w p ctx ps s) = Inl (Revert RefundFailed)
                   \<and> (\<exists>j<length ps. \<not> success (results f ! j))))"
proof -
  have n: "length ps < 2 ^ 256 - 1"
    using v(1) by (simp add: validPayments_Inr)
  have tr: "sum_amounts ps < 2 ^ 256" "unat tr = sum_amounts ps"
    using v(2) by (simp_all add: validate_loop_Inr)
  let ?l = "pay_loop_re nested w p ctx ps 0 (frame0 (length ps)) (started ctx ps tr s)"
  from pay_loop_re_tallied [where nested = nested and w = w and p = p and ctx = ctx
         and s = "started ctx ps tr s", OF tallied_frame0 _ tr(1) n]
  consider (gas) "fst ?l = Inl OutOfGas" "\<exists>j<length ps. snd (w p (PaymentCall j)) = Exhaust"
    | (ran) f s2 where "?l = (Inr f, s2)" "tallied w p ps (length ps) f"
    by auto
  then show ?thesis
  proof cases
    case gas
    then have "fst (batchPay_re nested w p ctx ps s) = Inl OutOfGas"
      by (cases ?l) (simp add: batchPay_re_valid [OF v])
    then show ?thesis using gas(2) by simp
  next
    case ran
    have len: "length (results f) = length ps"
      using ran(2) by (simp add: tallied_def)
    have tp: "unat (totalProcessed f) = delivered (results f)"
      using ran(2) by (simp add: tallied_def)
    have le: "totalProcessed f \<le> tr"
      using tallied_bounds(3) [OF ran(2)] tr(2) by (simp add: word_le_unat)
    let ?r = "reconcile_re nested w p ctx tr (totalProcessed f) (counted ctx f s2)"
    have failed: "\<exists>j<length ps. \<not> success (results f ! j)" if "totalProcessed f < tr"
    proof (rule ccontr)
      assume "\<not> (\<exists>j<length ps. \<not> success (results f ! j))"
      then have "\<forall>j<length ps. PaymentResult.amount (results f ! j) = Payment.amount (ps ! j)
                    \<and> success (results f ! j)"
        using ran(2) by (simp add: tallied_def)
      then have "delivered (take (length ps) (results f)) = sum_amounts (take (length ps) ps)"
        using len by (intro delivered_all_success) simp_all
      then show False
        using that tp tr(2) len by (simp add: word_less_unat)
    qed
    have out: "fst (batchPay_re nested w p ctx ps s) = Inl (Revert Overflow)
               \<or> fst (batchPay_re nested w p ctx ps s) = (case fst ?r of Inl st \<Rightarrow> Inl st
                                                            | Inr u \<Rightarrow> Inr (results f))"
      using ran(1)
      by (cases ?r) (simp add: batchPay_re_valid [OF v] split: sum.split)
    from reconcile_re_outcome [where nested = nested and w = w and p = p
         and s = "counted ctx f s2", OF le v(3)] out failed
    have "fst (batchPay_re nested w p ctx ps s) = Inr (results f)
               \<or> fst (batchPay_re nested w p ctx ps s) = Inl OutOfGas
               \<or> fst (batchPay_re nested w p ctx ps s) = Inl (Revert Overflow)
               \<or> fst (batchPay_re nested w p ctx ps s) = Inl (Revert ExcessRefundFailed)
               \<or> fst (batchPay_re nested w p ctx ps s) = Inl (Revert RefundFailed)
                   \<and> (\<exists>j<length ps. \<not> success (results f ! j))"
      by auto
    then show ?thesis using ran by blast
  qed
qed

lemma batchPay_re_completed:
  assumes run: "batchPay_re nested w p ctx ps s = (Inr rs, s')"
  shows "\<exists>tr f s2. validPayments ps = Inr () \<and> validate_loop ps 0 0 = Inr tr
           \<and> tr \<le> msg_value ctx
           \<and> pay_loop_re nested w p ctx ps 0 (frame0 (length ps)) (started ctx ps tr s)
               = (Inr f, s2)
           \<and> tallied w p ps (length ps) f
           \<and> rs = results f
           \<and> unat (totalPaymentsProcessed s2) + unat (successCount f) < 2 ^ 256
           \<and> unat (totalVolumeProcessed s2) + unat (totalProcessed f) < 2 ^ 256
           \<and> s' = snd (reconcile_re nested w p ctx tr (totalProcessed f) (counted ctx f s2))"
proof -
  have "precheck ps (msg_value ctx) = None"
    using batchPay_re_invalid [where nested = nested and w = w and p = p and s = s and ps = ps
            and ctx = ctx] run
    by (cases "precheck ps (msg_value ctx)") auto
  then obtain tr where v: "validPayments ps = Inr ()" "validate_loop ps 0 0 = Inr tr"
    "tr \<le> msg_value ctx"
    by (auto simp: precheck_None)
  from batchPay_re_outcome [where nested = nested and w = w and p = p and s = s, OF v] run
  obtain f s2 where l: "pay_loop_re nested w p ctx ps 0 (frame0 (length ps)) (started ctx ps tr s)
                    = (Inr f, s2)" "tallied w p ps (length ps) f"
    by auto
  have "rs = results f
           \<and> unat (totalPaymentsProcessed s2) + unat (successCount f) < 2 ^ 256
           \<and> unat (totalVolumeProcessed s2) + unat (totalProcessed f) < 2 ^ 256
           \<and> s' = snd (reconcile_re nested w p ctx tr (totalProcessed f) (counted ctx f s2))"
    using run l(1)
    by (auto simp: batchPay_re_valid [OF v] split: if_splits prod.splits sum.splits)
  then show ?thesis
    using v l by blast
qed

lemma contract_completed:
  assumes run: "fst (contract (Suc d) w p ctx (BatchPay ps) s) = Inr (Results rs)"
  shows "\<exists>tr f s2. validPayments ps = Inr () \<and> validate_loop ps 0 0 = Inr tr
           \<and> tr \<le> msg_value ctx
           \<and> pay_loop_re (contract d w) w p ctx ps 0 (frame0 (length ps))
                (started ctx ps tr (credited ctx s)) = (Inr f, s2)
           \<and> tallied w p ps (length ps) f
           \<and> rs = results f
           \<and> unat (totalPaymentsProcessed s2) + unat (successCount f) < 2 ^ 256
           \<and> unat (totalVolumeProcessed s2) + unat (totalProcessed f) < 2 ^ 256
           \<and> snd (contract (Suc d) w p ctx (BatchPay ps) s)
               = snd (reconcile_re (contract d w) w p ctx tr (totalProcessed f)
                        (counted ctx f s2))"
proof -
  obtain x s' where b: "batchPay_re (contract d w) w p ctx ps (credited ctx s) = (x, s')"
    by (cases "batchPay_re (contract d w) w p ctx ps (credited ctx s)")
  have x: "x = Inr rs" and s': "snd (contract (Suc d) w p ctx (BatchPay ps) s) = s'"
    using run b by (auto simp: invoke_re_BatchPay split: if_splits sum.splits)
  show ?thesis
    using batchPay_re_completed [OF b [unfolded x]] s' by simp
qed

subsection \<open>The two models agree on callees that only accept or refuse\<close>








subsection \<open>Running the concrete calls against callees that act\<close>

lemmas run_re_defs = invoke_re_def dispatch_re_def batchPay_re_def reconcile_re_def
  refund_re_def call_re_def reverting_def pay_loop_re.simps

lemmas world_defs = second_fails_world_def sender_rejects_def second_fails_sender_rejects_def
  second_exhausts_def exact_ctx_def greedy_world_def single_ctx_def single_batch_def

lemma demo_run_re:
  "fst (contract (Suc 0) second_fails_world [] demo_ctx (BatchPay demo_batch) demo_state)
     = Inr (Results demo_results)"
  by (simp add: run_defs run_re_defs demo_defs world_defs
        cong: sum.case_cong_weak prod.case_cong_weak)

lemma gas_run:
  "contract (Suc 0) second_exhausts [] demo_ctx (BatchPay demo_batch) demo_state
     = (Inl OutOfGas, demo_state)"
  by (simp add: run_defs run_re_defs demo_defs world_defs
        cong: sum.case_cong_weak prod.case_cong_weak)

section \<open>The properties\<close>

subsection \<open>C1: conservation of the attached value\<close>



subsection \<open>C2: a failed transfer does not stop the loop, but it can fail the call\<close>




subsection \<open>C3: the validation errors\<close>

text \<open>
  Claim C3 says that the call fails with \<open>AmountTooSmall\<close> iff some amount is below
  \<open>MIN_AMOUNT\<close>. The batch of one payment of amount 0 to the zero address has such an
  amount, and the call fails with \<open>InvalidRecipient\<close>: the recipient is checked
  first.
\<close>

theorem validation_order_counterexample:
  "Payment.amount (dust_to_nobody ! 0) < MIN_AMOUNT
   \<and> fst (invoke env_second_fails demo_ctx (BatchPay dust_to_nobody) demo_state) = Inl InvalidRecipient
   \<and> InvalidRecipient \<noteq> AmountTooSmall"
  by (simp add: run_defs demo_defs dust_to_nobody_def InvalidRecipient_def AmountTooSmall_def
        cong: sum.case_cong_weak prod.case_cong_weak)

text \<open>
  Claim C3, amended. Let the sender be able to pay the value it attaches, so that the
  call is made. The call fails with \<open>EmptyBatch\<close> iff the batch is empty and with
  \<open>BatchTooLarge\<close> iff it has more than 100 payments. For a batch of 1 to 100 payments
  the first loop visits the payments in order, checks the recipient, then the amount,
  and adds the amount with a checked addition; so the call fails with
  \<open>InvalidRecipient\<close> iff the amounts before the first payment that fails a check sum
  to at most \<open>2 ^ 256 - 1\<close> and that payment's recipient is the zero address, with
  \<open>AmountTooSmall\<close> iff they do and that payment has a non-zero recipient (its amount
  is then below \<open>MIN_AMOUNT\<close>), and with \<open>InsufficientFunds\<close> iff every payment passes
  both checks, the amounts sum to at most \<open>2 ^ 256 - 1\<close> and \<open>msg.value\<close> is below the
  sum. A call that fails leaves the state as it was, and when it fails with one of these
  five errors the body had stopped without any effect: the state in which it stops
  is the one in which it started (no transfer, no event, statistics untouched).
\<close>

theorem validation_errors:
  assumes "unat (msg_value ctx) \<le> balance s (msg_sender ctx)"
  shows "(fst (invoke env ctx (BatchPay ps) s) = Inl EmptyBatch \<longleftrightarrow> length ps = 0)
     \<and> (fst (invoke env ctx (BatchPay ps) s) = Inl BatchTooLarge \<longleftrightarrow> 100 < length ps)
     \<and> (fst (invoke env ctx (BatchPay ps) s) = Inl InvalidRecipient \<longleftrightarrow>
          0 < length ps \<and> length ps \<le> 100
          \<and> sum_amounts (takeWhile well_formed ps) < 2 ^ 256
          \<and> dropWhile well_formed ps \<noteq> []
          \<and> Payment.recipient (hd (dropWhile well_formed ps)) = 0)
     \<and> (fst (invoke env ctx (BatchPay ps) s) = Inl AmountTooSmall \<longleftrightarrow>
          0 < length ps \<and> length ps \<le> 100
          \<and> sum_amounts (takeWhile well_formed ps) < 2 ^ 256
          \<and> dropWhile well_formed ps \<noteq> []
          \<and> Payment.recipient (hd (dropWhile well_formed ps)) \<noteq> 0)
     \<and> (fst (invoke env ctx (BatchPay ps) s) = Inl InsufficientFunds \<longleftrightarrow>
          0 < length ps \<and> length ps \<le> 100 \<and> (\<forall>p \<in> set ps. well_formed p)
          \<and> sum_amounts ps < 2 ^ 256 \<and> unat (msg_value ctx) < sum_amounts ps)
     \<and> (\<forall>e. fst (invoke env ctx (BatchPay ps) s) = Inl e \<longrightarrow>
            snd (invoke env ctx (BatchPay ps) s) = s)
     \<and> (\<forall>e. (e = EmptyBatch \<or> e = BatchTooLarge \<or> e = InvalidRecipient \<or> e = AmountTooSmall
               \<or> e = InsufficientFunds)
              \<and> fst (invoke env ctx (BatchPay ps) s) = Inl e \<longrightarrow>
            batchPay env ctx ps (credited ctx s) = (Inl e, credited ctx s))"
proof -
  have key: "fst (invoke env ctx (BatchPay ps) s) = Inl e \<longleftrightarrow> precheck ps (msg_value ctx) = Some e"
    if "e = EmptyBatch \<or> e = BatchTooLarge \<or> e = InvalidRecipient \<or> e = AmountTooSmall
         \<or> e = InsufficientFunds" for e
    using assms that by (rule invoke_validation_error)
  have "\<forall>e. fst (invoke env ctx (BatchPay ps) s) = Inl e \<longrightarrow>
            snd (invoke env ctx (BatchPay ps) s) = s"
    by (simp add: invoke_failed_state)
  moreover have "\<forall>e. (e = EmptyBatch \<or> e = BatchTooLarge \<or> e = InvalidRecipient
               \<or> e = AmountTooSmall \<or> e = InsufficientFunds)
              \<and> fst (invoke env ctx (BatchPay ps) s) = Inl e \<longrightarrow>
            batchPay env ctx ps (credited ctx s) = (Inl e, credited ctx s)"
    using batchPay_validation_error_state [OF assms] by blast
  moreover have "(fst (invoke env ctx (BatchPay ps) s) = Inl EmptyBatch \<longleftrightarrow> length ps = 0)"
    by (simp only: key precheck_iffs simp_thms)
  moreover have "(fst (invoke env ctx (BatchPay ps) s) = Inl BatchTooLarge \<longleftrightarrow> 100 < length ps)"
    by (simp only: key precheck_iffs simp_thms)
  moreover have "(fst (invoke env ctx (BatchPay ps) s) = Inl InvalidRecipient \<longleftrightarrow>
          0 < length ps \<and> length ps \<le> 100
          \<and> sum_amounts (takeWhile well_formed ps) < 2 ^ 256
          \<and> dropWhile well_formed ps \<noteq> []
          \<and> Payment.recipient (hd (dropWhile well_formed ps)) = 0)"
    by (simp only: key precheck_iffs simp_thms)
  moreover have "(fst (invoke env ctx (BatchPay ps) s) = Inl AmountTooSmall \<longleftrightarrow>
          0 < length ps \<and> length ps \<le> 100
          \<and> sum_amounts (takeWhile well_formed ps) < 2 ^ 256
          \<and> dropWhile well_formed ps \<noteq> []
          \<and> Payment.recipient (hd (dropWhile well_formed ps)) \<noteq> 0)"
    by (simp only: key precheck_iffs simp_thms)
  moreover have "(fst (invoke env ctx (BatchPay ps) s) = Inl InsufficientFunds \<longleftrightarrow>
          0 < length ps \<and> length ps \<le> 100 \<and> (\<forall>p \<in> set ps. well_formed p)
          \<and> sum_amounts ps < 2 ^ 256 \<and> unat (msg_value ctx) < sum_amounts ps)"
    by (simp only: key precheck_iffs simp_thms)
  ultimately show ?thesis
    by (intro conjI)
qed

text \<open>
  The theorem at the batch of one payment of nothing to the zero address.
\<close>

theorem validation_errors_witness:
  "unat (msg_value demo_ctx) \<le> balance demo_state (msg_sender demo_ctx)
   \<and> fst (invoke env_second_fails demo_ctx (BatchPay dust_to_nobody) demo_state) = Inl InvalidRecipient
   \<and> dropWhile well_formed dust_to_nobody \<noteq> []
   \<and> Payment.recipient (hd (dropWhile well_formed dust_to_nobody)) = 0
   \<and> snd (invoke env_second_fails demo_ctx (BatchPay dust_to_nobody) demo_state) = demo_state"
proof -
  have funds: "unat (msg_value demo_ctx) \<le> balance demo_state (msg_sender demo_ctx)"
    by (simp add: demo_ctx_def demo_state_def)
  have bad: "0 < length dust_to_nobody \<and> length dust_to_nobody \<le> 100
          \<and> sum_amounts (takeWhile well_formed dust_to_nobody) < 2 ^ 256
          \<and> dropWhile well_formed dust_to_nobody \<noteq> []
          \<and> Payment.recipient (hd (dropWhile well_formed dust_to_nobody)) = 0"
    by (simp add: dust_to_nobody_def well_formed_def sum_amounts_def)
  show ?thesis
    using validation_errors [OF funds, of env_second_fails dust_to_nobody] funds bad by blast
qed

subsection \<open>C4: a failed reconciliation undoes the call\<close>



subsection \<open>C5: one result per payment, in input order\<close>

text \<open>
  Claim C5. The results that \<open>batchPay\<close> returns have the length of the batch, and the
  \<open>i\<close>-th result has the recipient and the amount of the \<open>i\<close>-th payment (and the
  success flag of the \<open>i\<close>-th transfer).
\<close>

theorem results_match_batch:
  assumes "fst (invoke env ctx (BatchPay ps) s) = Inr (Results rs)"
  shows "length rs = length ps
         \<and> (\<forall>i < length ps.
               PaymentResult.recipient (rs ! i) = Payment.recipient (ps ! i)
               \<and> PaymentResult.amount (rs ! i) = Payment.amount (ps ! i)
               \<and> success (rs ! i) = fst (env (PaymentCall i)))"
proof -
  have "rs = map (result_at env ps) [0..<length ps]"
    using invoke_completed(4) [OF assms] by simp
  then show ?thesis
    by (simp add: result_at_def ok_def)
qed

text \<open>
  The theorem at the call whose second payment fails.
\<close>

theorem results_match_batch_witness:
  "fst (invoke env_second_fails demo_ctx (BatchPay demo_batch) demo_state) = Inr (Results demo_results)
   \<and> length demo_results = length demo_batch
   \<and> PaymentResult.recipient (demo_results ! 1) = Payment.recipient (demo_batch ! 1)
   \<and> PaymentResult.amount (demo_results ! 1) = Payment.amount (demo_batch ! 1)
   \<and> success (demo_results ! 1) = fst (env_second_fails (PaymentCall 1))"
proof -
  have run: "fst (invoke env_second_fails demo_ctx (BatchPay demo_batch) demo_state)
               = Inr (Results demo_results)"
    by (simp add: run_defs demo_defs cong: sum.case_cong_weak prod.case_cong_weak)
  have "1 < length demo_batch"
    by (simp add: demo_batch_def)
  then show ?thesis
    using results_match_batch [OF run] run by blast
qed

subsection \<open>C6: the aggregate statistics\<close>

text \<open>
  Claim C6 says that a completed call raises \<open>totalPaymentsProcessed\<close> by exactly its
  \<open>successCount\<close> and \<open>totalVolumeProcessed\<close> by exactly its \<open>totalProcessed\<close>. The
  transfer is a call with all the gas that is left, and \<open>batchPay\<close> has no guard
  against re-entry. Here the only recipient of the batch, before it accepts, calls
  \<open>batchPay\<close> with the amount it has just received. The outer call completes with one
  successful result of \<open>MIN_AMOUNT\<close>, and over this call the two counters go from 0 to
  2 and to twice \<open>MIN_AMOUNT\<close>: the nested call has written them while the outer loop
  was running.
\<close>

theorem statistics_reentrant_counterexample:
  "fst (contract (Suc (Suc 0)) greedy_world [] single_ctx (BatchPay single_batch) demo_state)
     = Inr (Results [\<lparr>success = True, recipient = 2, amount = 100000000000000\<rparr>])
   \<and> getStats demo_state = (0, 0)
   \<and> getStats (snd (contract (Suc (Suc 0)) greedy_world [] single_ctx (BatchPay single_batch)
                       demo_state))
       = (2, 200000000000000)"
  by (simp add: run_defs run_re_defs demo_defs world_defs
        cong: sum.case_cong_weak prod.case_cong_weak)

text \<open>
  Claim C6, amended. Only \<open>batchPay\<close> writes the statistics: every other entry point,
  and every call that fails, leaves both counters as they were. A completed \<open>batchPay\<close>
  writes them once, after its loop: it adds its \<open>successCount\<close>, the number of its
  successful results, and its \<open>totalProcessed\<close>, the sum of their amounts, to the values
  the counters have when the loop has ended, without wrap-around; this sum is at most
  the sum of all amounts, itself at most \<open>msg.value\<close>. A callee may call \<open>batchPay\<close>
  again during the loop or the refunds, so over the whole call each counter rises by at
  least that much, and by exactly that much when no callee of the call re-enters; in
  that case the loop leaves the counters untouched. No call to any entry point, at any
  depth of re-entry, lowers a counter.
\<close>

theorem statistics_written_after_loop:
  "(\<forall>rs. fst (contract (Suc d) w p ctx (BatchPay ps) s) = Inr (Results rs) \<longrightarrow>
       (\<exists>tr f s2.
           pay_loop_re (contract d w) w p ctx ps 0 (frame0 (length ps))
             (started ctx ps tr (credited ctx s)) = (Inr f, s2)
         \<and> results f = rs
         \<and> unat (successCount f) = length (filter success rs)
         \<and> unat (totalProcessed f) = delivered rs
         \<and> unat (totalPaymentsProcessed (counted ctx f s2))
             = unat (totalPaymentsProcessed s2) + unat (successCount f)
         \<and> unat (totalVolumeProcessed (counted ctx f s2))
             = unat (totalVolumeProcessed s2) + unat (totalProcessed f)
         \<and> snd (contract (Suc d) w p ctx (BatchPay ps) s)
             = snd (reconcile_re (contract d w) w p ctx tr (totalProcessed f) (counted ctx f s2)))
     \<and> delivered rs \<le> sum_amounts ps
     \<and> sum_amounts ps \<le> unat (msg_value ctx)
     \<and> unat (totalPaymentsProcessed s) + length (filter success rs)
         \<le> unat (totalPaymentsProcessed (snd (contract (Suc d) w p ctx (BatchPay ps) s)))
     \<and> unat (totalVolumeProcessed s) + delivered rs
         \<le> unat (totalVolumeProcessed (snd (contract (Suc d) w p ctx (BatchPay ps) s)))
     \<and> (quiet w p \<longrightarrow>
          unat (totalPaymentsProcessed (snd (contract (Suc d) w p ctx (BatchPay ps) s)))
            = unat (totalPaymentsProcessed s) + length (filter success rs)
        \<and> unat (totalVolumeProcessed (snd (contract (Suc d) w p ctx (BatchPay ps) s)))
            = unat (totalVolumeProcessed s) + delivered rs))
   \<and> ((\<forall>qs. e \<noteq> BatchPay qs) \<or> (\<exists>st. fst (contract (Suc d) w p ctx e s) = Inl st) \<longrightarrow>
        totalPaymentsProcessed (snd (contract (Suc d) w p ctx e s)) = totalPaymentsProcessed s
      \<and> totalVolumeProcessed (snd (contract (Suc d) w p ctx e s)) = totalVolumeProcessed s)
   \<and> totalPaymentsProcessed s \<le> totalPaymentsProcessed (snd (contract d w p ctx e s))
   \<and> totalVolumeProcessed s \<le> totalVolumeProcessed (snd (contract d w p ctx e s))
   \<and> (quiet w p \<longrightarrow>
        (\<forall>nested i f s1.
            totalPaymentsProcessed (snd (pay_loop_re nested w p ctx ps i f s1))
              = totalPaymentsProcessed s1
          \<and> totalVolumeProcessed (snd (pay_loop_re nested w p ctx ps i f s1))
              = totalVolumeProcessed s1))"
proof -
  let ?c = "contract (Suc d) w p ctx (BatchPay ps) s"
  have compl: "(\<exists>tr f s2.
           pay_loop_re (contract d w) w p ctx ps 0 (frame0 (length ps))
             (started ctx ps tr (credited ctx s)) = (Inr f, s2)
         \<and> results f = rs
         \<and> unat (successCount f) = length (filter success rs)
         \<and> unat (totalProcessed f) = delivered rs
         \<and> unat (totalPaymentsProcessed (counted ctx f s2))
             = unat (totalPaymentsProcessed s2) + unat (successCount f)
         \<and> unat (totalVolumeProcessed (counted ctx f s2))
             = unat (totalVolumeProcessed s2) + unat (totalProcessed f)
         \<and> snd ?c = snd (reconcile_re (contract d w) w p ctx tr (totalProcessed f) (counted ctx f s2)))
     \<and> delivered rs \<le> sum_amounts ps
     \<and> sum_amounts ps \<le> unat (msg_value ctx)
     \<and> unat (totalPaymentsProcessed s) + length (filter success rs)
         \<le> unat (totalPaymentsProcessed (snd ?c))
     \<and> unat (totalVolumeProcessed s) + delivered rs \<le> unat (totalVolumeProcessed (snd ?c))
     \<and> (quiet w p \<longrightarrow>
          unat (totalPaymentsProcessed (snd ?c))
            = unat (totalPaymentsProcessed s) + length (filter success rs)
        \<and> unat (totalVolumeProcessed (snd ?c)) = unat (totalVolumeProcessed s) + delivered rs)"
    if run: "fst ?c = Inr (Results rs)" for rs
  proof -
    from contract_completed [OF run]
    obtain tr f s2 where v: "validate_loop ps 0 0 = Inr tr" "tr \<le> msg_value ctx"
      and l: "pay_loop_re (contract d w) w p ctx ps 0 (frame0 (length ps))
                (started ctx ps tr (credited ctx s)) = (Inr f, s2)"
      and t: "tallied w p ps (length ps) f"
      and rs: "rs = results f"
      and room: "unat (totalPaymentsProcessed s2) + unat (successCount f) < 2 ^ 256"
        "unat (totalVolumeProcessed s2) + unat (totalProcessed f) < 2 ^ 256"
      and fin: "snd ?c = snd (reconcile_re (contract d w) w p ctx tr (totalProcessed f)
                                (counted ctx f s2))"
      by blast
    let ?s1 = "started ctx ps tr (credited ctx s)"
    let ?s5 = "counted ctx f s2"
    have len: "length (results f) = length ps"
      using t by (simp add: tallied_def)
    have sc: "unat (successCount f) = length (filter success rs)"
      and tp: "unat (totalProcessed f) = delivered rs"
      using t len by (simp_all add: tallied_def rs)
    have sum: "unat tr = sum_amounts ps"
      using v(1) by (simp add: validate_loop_Inr)
    have d: "delivered rs \<le> sum_amounts ps"
      using tallied_bounds(3) [OF t] tp by simp
    have val: "sum_amounts ps \<le> unat (msg_value ctx)"
      using v(2) sum by (simp add: word_le_unat)
    have s1: "stats_eq s ?s1"
      using credited_stats_eq started_stats_eq stats_eq_trans by blast
    have mono: "stats_monotone (contract d w)"
      by (rule contract_stats_monotone)
    have "stats_le ?s1 (snd (pay_loop_re (contract d w) w p ctx ps 0 (frame0 (length ps)) ?s1))"
      using mono by (rule pay_loop_re_stats_le)
    then have up1: "stats_le s s2"
      using l s1 by (simp add: stats_le_def stats_eq_def)
    have "stats_le ?s5 (snd (reconcile_re (contract d w) w p ctx tr (totalProcessed f) ?s5))"
      using mono by (rule reconcile_re_stats_le)
    then have up2: "stats_le ?s5 (snd ?c)"
      using fin by simp
    have lower: "unat (totalPaymentsProcessed s) + length (filter success rs)
                   \<le> unat (totalPaymentsProcessed (snd ?c))"
      "unat (totalVolumeProcessed s) + delivered rs \<le> unat (totalVolumeProcessed (snd ?c))"
      using up1 up2 counted_stats(1,2) [OF room, of ctx] sc tp
      by (simp_all add: stats_le_def word_le_unat)
    have exact: "unat (totalPaymentsProcessed (snd ?c))
            = unat (totalPaymentsProcessed s) + length (filter success rs)
        \<and> unat (totalVolumeProcessed (snd ?c)) = unat (totalVolumeProcessed s) + delivered rs"
      if q: "quiet w p"
    proof -
      have "stats_eq ?s1 (snd (pay_loop_re (contract d w) w p ctx ps 0 (frame0 (length ps)) ?s1))"
        using q by (rule pay_loop_re_stats_eq)
      then have e1: "stats_eq s s2"
        using l s1 by (simp add: stats_eq_def)
      have "stats_eq ?s5 (snd (reconcile_re (contract d w) w p ctx tr (totalProcessed f) ?s5))"
        using q by (rule reconcile_re_stats_eq)
      then have e2: "stats_eq ?s5 (snd ?c)"
        using fin by simp
      show ?thesis
        using e1 e2 counted_stats(1,2) [OF room, of ctx] sc tp
        by (simp add: stats_eq_def)
    qed
    show ?thesis
      using l rs sc tp counted_stats(1,2) [OF room, of ctx] fin d val lower exact
      by blast
  qed
  have same: "totalPaymentsProcessed (snd (contract (Suc d) w p ctx e s)) = totalPaymentsProcessed s
      \<and> totalVolumeProcessed (snd (contract (Suc d) w p ctx e s)) = totalVolumeProcessed s"
    if "(\<forall>qs. e \<noteq> BatchPay qs) \<or> (\<exists>st. fst (contract (Suc d) w p ctx e s) = Inl st)"
    using that
  proof
    assume "\<forall>qs. e \<noteq> BatchPay qs"
    then have "stats_eq s (snd (invoke_re (contract d w) w p ctx e s))"
      by (intro invoke_re_other_stats) simp
    then show ?thesis by (simp add: stats_eq_def)
  next
    assume "\<exists>st. fst (contract (Suc d) w p ctx e s) = Inl st"
    then show ?thesis
      using invoke_re_failed_state [of "contract d w" w p ctx e s] by auto
  qed
  have mono: "totalPaymentsProcessed s \<le> totalPaymentsProcessed (snd (contract d w p ctx e s))
      \<and> totalVolumeProcessed s \<le> totalVolumeProcessed (snd (contract d w p ctx e s))"
    using contract_stats_monotone [of d w] by (simp add: stats_monotone_def stats_le_def)
  have loop: "totalPaymentsProcessed (snd (pay_loop_re nested w p ctx ps i f s1))
              = totalPaymentsProcessed s1
          \<and> totalVolumeProcessed (snd (pay_loop_re nested w p ctx ps i f s1))
              = totalVolumeProcessed s1"
    if "quiet w p" for nested i f s1
    using pay_loop_re_stats_eq [OF that, of s1 nested ctx ps i f] by (simp add: stats_eq_def)
  show ?thesis
    using compl same mono loop by blast
qed

text \<open>
  The theorem at the call whose second recipient reverts, where no callee re-enters
  (two successes, twice \<open>MIN_AMOUNT\<close>), and at a call of \<open>getStats\<close>.
\<close>

theorem statistics_written_after_loop_witness:
  "fst (contract (Suc 0) second_fails_world [] demo_ctx (BatchPay demo_batch) demo_state)
     = Inr (Results demo_results)
   \<and> quiet second_fails_world []
   \<and> unat (totalPaymentsProcessed
              (snd (contract (Suc 0) second_fails_world [] demo_ctx (BatchPay demo_batch) demo_state)))
       = unat (totalPaymentsProcessed demo_state) + 2
   \<and> unat (totalVolumeProcessed
              (snd (contract (Suc 0) second_fails_world [] demo_ctx (BatchPay demo_batch) demo_state)))
       = unat (totalVolumeProcessed demo_state) + 200000000000000
   \<and> totalPaymentsProcessed (snd (contract (Suc 0) second_fails_world [] demo_ctx GetStats demo_state))
       = totalPaymentsProcessed demo_state"
proof -
  have other: "\<forall>qs. GetStats \<noteq> BatchPay qs"
    by simp
  have q: "quiet second_fails_world []"
    by (simp add: quiet_def second_fails_world_def)
  have "length (filter success demo_results) = 2" "delivered demo_results = 200000000000000"
    by (simp_all add: demo_results_def delivered_def)
  then show ?thesis
    using statistics_written_after_loop [of 0 second_fails_world "[]" demo_ctx demo_batch
            demo_state GetStats]
      demo_run_re other q
    by simp
qed

subsection \<open>C7: estimateBatchCost\<close>

text \<open>
  Claim C7 says that \<open>estimateBatchCost\<close> returns the sum of the amounts for every
  batch. For the two amounts of \<open>2 ^ 255\<close> the sum is \<open>2 ^ 256\<close> and the function
  reverts with \<open>Panic(0x11)\<close>.
\<close>

theorem estimateBatchCost_overflow_counterexample:
  "sum_amounts overflow_batch = 2 ^ 256 \<and> estimateBatchCost overflow_batch = Inl Overflow"
  by (simp add: sum_amounts_def overflow_batch_def run_defs Overflow_def cong: sum.case_cong_weak)

text \<open>
  Claim C7, amended. For every batch whose amounts sum to at most \<open>2 ^ 256 - 1\<close>,
  \<open>estimateBatchCost\<close> returns that sum, whatever the recipients, the amounts and the
  length of the batch are; for every other batch it reverts with \<open>Panic(0x11)\<close>. A call
  to it leaves the state unchanged. Whenever the first loop of \<open>batchPay\<close> computes a
  \<open>totalRequired\<close> for a batch, \<open>estimateBatchCost\<close> returns the same value.
\<close>

theorem estimateBatchCost_sum:
  "(sum_amounts ps < 2 ^ 256 \<longrightarrow>
      (\<exists>t. estimateBatchCost ps = Inr t \<and> unat t = sum_amounts ps))
   \<and> (\<not> sum_amounts ps < 2 ^ 256 \<longrightarrow> estimateBatchCost ps = Inl Overflow)
   \<and> snd (invoke env ctx (EstimateBatchCost ps) s) = s
   \<and> (\<forall>totalRequired. validate_loop ps 0 0 = Inr totalRequired \<longrightarrow>
         estimateBatchCost ps = Inr totalRequired)"
proof -
  have "\<exists>t. estimateBatchCost ps = Inr t \<and> unat t = sum_amounts ps" if "sum_amounts ps < 2 ^ 256"
    using that by (simp add: estimateBatchCost_closed unat_of_nat_fit)
  moreover have "estimateBatchCost ps = Inl Overflow" if "\<not> sum_amounts ps < 2 ^ 256"
    using that by (simp add: estimateBatchCost_closed)
  moreover have "snd (invoke env ctx (EstimateBatchCost ps) s) = s"
    by (simp add: invoke_other)
  moreover have "estimateBatchCost ps = Inr tr" if "validate_loop ps 0 0 = Inr tr" for tr
  proof -
    have "sum_amounts ps < 2 ^ 256" "unat tr = sum_amounts ps"
      using that by (simp_all add: validate_loop_Inr)
    then show ?thesis
      by (simp add: estimateBatchCost_closed word_unat_eq_iff unat_of_nat_fit)
  qed
  ultimately show ?thesis by blast
qed

text \<open>
  The theorem at the batch of three payments and at the batch whose sum overflows.
\<close>

theorem estimateBatchCost_sum_witness:
  "sum_amounts demo_batch < 2 ^ 256
   \<and> validate_loop demo_batch 0 0 = Inr 300000000000000
   \<and> estimateBatchCost demo_batch = Inr 300000000000000
   \<and> \<not> sum_amounts overflow_batch < 2 ^ 256
   \<and> estimateBatchCost overflow_batch = Inl Overflow"
proof -
  have a: "sum_amounts demo_batch < 2 ^ 256"
    by (simp add: sum_amounts_def demo_batch_def)
  have b: "validate_loop demo_batch 0 0 = Inr 300000000000000"
    by (simp add: run_defs demo_defs cong: sum.case_cong_weak)
  have c: "\<not> sum_amounts overflow_batch < 2 ^ 256"
    by (simp add: sum_amounts_def overflow_batch_def)
  show ?thesis
    using estimateBatchCost_sum [of demo_batch env_second_fails demo_ctx demo_state]
      estimateBatchCost_sum [of overflow_batch env_second_fails demo_ctx demo_state] a b c
    by blast
qed

subsection \<open>C8: the reason of a failed payment\<close>




subsection \<open>C9: receive and fallback\<close>

text \<open>
  Claim C9. A plain transfer to the contract (\<open>receive\<close>) and a call to a function it
  does not have (\<open>fallback\<close>) always fail: with the revert reason of the function, or
  because the caller cannot pay the value it attaches. A call to any entry point other
  than \<open>batchPay\<close> leaves the whole state unchanged: the statistics, every balance (the
  contract's included) and the event log.
\<close>

theorem only_batchPay_takes_funds:
  "fst (invoke env ctx Receive s)
     = Inl (if balance s (msg_sender ctx) < unat (msg_value ctx) then OutOfFunds
            else Error ''Use batchPay function'')
   \<and> fst (invoke env ctx Fallback s)
     = Inl (if balance s (msg_sender ctx) < unat (msg_value ctx) then OutOfFunds
            else Error ''Function does not exist'')
   \<and> (\<forall>e. (\<forall>ps. e \<noteq> BatchPay ps) \<longrightarrow> snd (invoke env ctx e s) = s)"
proof -
  have "\<forall>e. (\<forall>ps. e \<noteq> BatchPay ps) \<longrightarrow> snd (invoke env ctx e s) = s"
    by (simp add: invoke_other)
  then show ?thesis
    by (simp add: invoke_def dispatch_def)
qed

text \<open>
  The theorem at a plain transfer and at a call to a missing function.
\<close>

theorem only_batchPay_takes_funds_witness:
  "snd (invoke env_second_fails demo_ctx Receive demo_state) = demo_state
   \<and> fst (invoke env_second_fails demo_ctx Receive demo_state) = Inl (Error ''Use batchPay function'')
   \<and> fst (invoke env_second_fails demo_ctx Fallback demo_state) = Inl (Error ''Function does not exist'')"
proof -
  have other: "\<forall>ps. Receive \<noteq> BatchPay ps"
    by simp
  have funds: "\<not> balance demo_state (msg_sender demo_ctx) < unat (msg_value demo_ctx)"
    by (simp add: demo_ctx_def demo_state_def)
  show ?thesis
    using only_batchPay_takes_funds [of env_second_fails demo_ctx demo_state] other funds
    by auto
qed

subsection \<open>C10: the sums are checked\<close>

text \<open>
  Claim C10. For every batch whose amounts sum to more than \<open>2 ^ 256 - 1\<close>,
  \<open>estimateBatchCost\<close> reverts with \<open>Panic(0x11)\<close> and \<open>batchPay\<close> never returns; when
  the batch passes the other checks, \<open>batchPay\<close> reverts with \<open>Panic(0x11)\<close> too.
  Whenever \<open>batchPay\<close> returns, the true sum of the amounts is at most \<open>msg.value\<close>.
\<close>

theorem checked_sums:
  "(\<not> sum_amounts ps < 2 ^ 256 \<longrightarrow>
      estimateBatchCost ps = Inl Overflow
      \<and> (\<forall>rs. fst (invoke env ctx (BatchPay ps) s) \<noteq> Inr rs))
   \<and> (\<not> sum_amounts ps < 2 ^ 256 \<and> 0 < length ps \<and> length ps \<le> 100
        \<and> (\<forall>p \<in> set ps. well_formed p)
        \<and> unat (msg_value ctx) \<le> balance s (msg_sender ctx) \<longrightarrow>
      invoke env ctx (BatchPay ps) s = (Inl Overflow, s))
   \<and> (\<forall>rs. fst (invoke env ctx (BatchPay ps) s) = Inr rs \<longrightarrow>
         sum_amounts ps \<le> unat (msg_value ctx))"
proof -
  have accepted: "sum_amounts ps \<le> unat (msg_value ctx) \<and> sum_amounts ps < 2 ^ 256"
    if "fst (invoke env ctx (BatchPay ps) s) = Inr rs" for rs
    using invoke_completed(1) [OF that] by (rule precheck_None_sum)
  have "estimateBatchCost ps = Inl Overflow" if "\<not> sum_amounts ps < 2 ^ 256"
    using that by (simp add: estimateBatchCost_closed)
  moreover have "invoke env ctx (BatchPay ps) s = (Inl Overflow, s)"
    if "\<not> sum_amounts ps < 2 ^ 256" "0 < length ps" "length ps \<le> 100"
      "\<forall>p \<in> set ps. well_formed p" "unat (msg_value ctx) \<le> balance s (msg_sender ctx)"
  proof -
    have "precheck ps (msg_value ctx) = Some Overflow"
      using that by (simp add: precheck_def takeWhile_well_formed)
    then show ?thesis
      using that(5) by (rule invoke_invalid)
  qed
  ultimately show ?thesis
    using accepted by blast
qed

text \<open>
  The theorem at the two amounts of \<open>2 ^ 255\<close>: such a batch exists, and both calls
  revert on it.
\<close>

theorem checked_sums_witness:
  "\<not> sum_amounts overflow_batch < 2 ^ 256
   \<and> estimateBatchCost overflow_batch = Inl Overflow
   \<and> invoke env_second_fails demo_ctx (BatchPay overflow_batch) demo_state = (Inl Overflow, demo_state)"
proof -
  have "\<not> sum_amounts overflow_batch < 2 ^ 256"
    by (simp add: sum_amounts_def overflow_batch_def)
  moreover have "0 < length overflow_batch \<and> length overflow_batch \<le> 100
      \<and> (\<forall>p \<in> set overflow_batch. well_formed p)"
    by (simp add: overflow_batch_def well_formed_def MIN_AMOUNT_def)
  moreover have "unat (msg_value demo_ctx) \<le> balance demo_state (msg_sender demo_ctx)"
    by (simp add: demo_ctx_def demo_state_def)
  ultimately show ?thesis
    using checked_sums [of overflow_batch env_second_fails demo_ctx demo_state] by blast
qed

end
